theory Spec2Isabelle
  imports Main
begin

section \<open>Values, errors and the instrumentation trace\<close>

text \<open>
  The development follows the most recent revision of the client (the one with the
  \<^verbatim>\<open>LOGGER\<close> symbol, \<^verbatim>\<open>maxRetries\<close> and the \<^verbatim>\<open>maxWait\<close> budget). Every call the
  client makes to a collaborator (the etcd client, the microlock handle, the timer, the
  logger, the event emitter, the caller's computation) is recorded as an event of a trace;
  what the collaborator answers is an argument of the model, so that a theorem about all
  arguments covers every behaviour of the store and of the other clients. The older
  revisions (five attempts and no \<^verbatim>\<open>maxWait\<close> in \<^verbatim>\<open>acquireLock\<close>, a write whatever \<^verbatim>\<open>ttl\<close> is
  in \<^verbatim>\<open>memoize\<close>, loggers taken from the context alone) are not modelled.
\<close>

text \<open>JSON documents. Numbers are restricted to integers; \<open>None\<close> of type
  \<open>json option\<close> stands for JavaScript's \<^verbatim>\<open>undefined\<close>.\<close>

datatype json =
    JNull
  | JBool bool
  | JNum int
  | JStr string
  | JArr "json list"
  | JObj "(string \<times> json) list"

text \<open>JavaScript truthiness, as tested by \<^verbatim>\<open>if (value)\<close> and \<^verbatim>\<open>x || y\<close>.\<close>

fun truthy :: "json option \<Rightarrow> bool" where
  "truthy None = False"
| "truthy (Some JNull) = False"
| "truthy (Some (JBool b)) = b"
| "truthy (Some (JNum n)) = (n \<noteq> 0)"
| "truthy (Some (JStr s)) = (s \<noteq> [])"
| "truthy (Some (JArr xs)) = True"
| "truthy (Some (JObj kvs)) = True"

text \<open>A thrown value: an \<^verbatim>\<open>Error\<close> object with its class and the properties the client
  reads or sets (\<^verbatim>\<open>errorCode\<close> of the store's errors, \<^verbatim>\<open>waitTime\<close> of the timeout).\<close>

datatype err_class = PlainError | AlreadyLockedError | AssertionError | TypeError | SyntaxError

record js_error =
  err_class :: err_class
  message :: string
  errorCode :: "int option"
  waitTime :: "nat option"

datatype status = SNum int | SStr string

text \<open>\<^verbatim>\<open>statusCode(error)\<close>: \<^verbatim>\<open>error.errorCode || 'unknown'\<close> for an error, \<^verbatim>\<open>0\<close> otherwise.\<close>

fun statusCode :: "js_error option \<Rightarrow> status" where
  "statusCode None = SNum 0"
| "statusCode (Some e) =
     (case errorCode e of
        None \<Rightarrow> SStr ''unknown''
      | Some c \<Rightarrow> if c \<noteq> 0 then SNum c else SStr ''unknown'')"

datatype logger = Logger string

datatype level = Info | Warn

record etcd_options =
  opt_maxRetries :: nat
  opt_ttl :: "nat option"

datatype event =
    Log logger level string
  | Emit_start string string
  | Emit_finish string string status
  | Etcd_get string etcd_options
  | Etcd_set string string etcd_options
  | Etcd_del string etcd_options
  | Lock_new string string nat
  | Lock_lock string
  | Lock_renew string
  | Lock_unlock string
  | Lock_destroy string
  | Delay nat
  | Set_timeout nat
  | Clear_timeout
  | Call_func

section \<open>JSON text\<close>

text \<open>
  \<^verbatim>\<open>JSON.stringify\<close> and \<^verbatim>\<open>JSON.parse\<close> are built-ins of the language, not code of the
  client. They are modelled after ECMA-404 on the documents above: the printer emits no
  white space and escapes the quotation mark, the backslash and the control characters as
  \<^verbatim>\<open>JSON.stringify\<close> does; the parser accepts white space between tokens and every escape
  whose code fits a \<open>char\<close>, and rejects fractions and exponents (numbers are integers
  here). \<open>JObj\<close> lists the members in the object's own enumeration order.
\<close>

definition digit_char :: "nat \<Rightarrow> char" where
  "digit_char d = char_of (48 + d)"

definition is_digit :: "char \<Rightarrow> bool" where
  "is_digit c = (48 \<le> (of_char c :: nat) \<and> (of_char c :: nat) \<le> 57)"

definition digit_val :: "char \<Rightarrow> nat" where
  "digit_val c = of_char c - 48"

function show_nat :: "nat \<Rightarrow> string" where
  "show_nat n = (if n < 10 then [digit_char n] else show_nat (n div 10) @ [digit_char (n mod 10)])"
  by pat_completeness auto
termination
  by (relation "measure id") auto

declare show_nat.simps [simp del]

definition show_int :: "int \<Rightarrow> string" where
  "show_int i = (if i < 0 then CHR ''-'' # show_nat (nat (- i)) else show_nat (nat i))"

definition hex_char :: "nat \<Rightarrow> char" where
  "hex_char d = (if d < 10 then char_of (48 + d) else char_of (87 + d))"

definition hex_val :: "char \<Rightarrow> nat option" where
  "hex_val c =
     (let n = (of_char c :: nat) in
      if 48 \<le> n \<and> n \<le> 57 then Some (n - 48)
      else if 97 \<le> n \<and> n \<le> 102 then Some (n - 87)
      else if 65 \<le> n \<and> n \<le> 70 then Some (n - 55)
      else None)"

definition escape_char :: "char \<Rightarrow> string" where
  "escape_char c =
     (if c = CHR 0x22 then [CHR 0x5C, CHR 0x22]
      else if c = CHR 0x5C then [CHR 0x5C, CHR 0x5C]
      else if c = CHR 0x08 then [CHR 0x5C, CHR ''b'']
      else if c = CHR 0x09 then [CHR 0x5C, CHR ''t'']
      else if c = CHR 0x0A then [CHR 0x5C, CHR ''n'']
      else if c = CHR 0x0C then [CHR 0x5C, CHR ''f'']
      else if c = CHR 0x0D then [CHR 0x5C, CHR ''r'']
      else if (of_char c :: nat) < 32 then
        [CHR 0x5C, CHR ''u'', CHR ''0'', CHR ''0'',
         hex_char ((of_char c :: nat) div 16), hex_char ((of_char c :: nat) mod 16)]
      else [c])"

definition show_string :: "string \<Rightarrow> string" where
  "show_string s = CHR 0x22 # concat (map escape_char s) @ [CHR 0x22]"

fun stringify :: "json \<Rightarrow> string"
  and stringify_elems :: "json list \<Rightarrow> string"
  and stringify_members :: "(string \<times> json) list \<Rightarrow> string" where
  "stringify JNull = ''null''"
| "stringify (JBool b) = (if b then ''true'' else ''false'')"
| "stringify (JNum i) = show_int i"
| "stringify (JStr s) = show_string s"
| "stringify (JArr xs) = CHR ''['' # stringify_elems xs @ '']''"
| "stringify (JObj kvs) = CHR ''{'' # stringify_members kvs @ ''}''"
| "stringify_elems [] = []"
| "stringify_elems [x] = stringify x"
| "stringify_elems (x # y # ys) = stringify x @ CHR '','' # stringify_elems (y # ys)"
| "stringify_members [] = []"
| "stringify_members [(k, v)] = show_string k @ CHR '':'' # stringify v"
| "stringify_members ((k, v) # m # ms) =
     show_string k @ CHR '':'' # stringify v @ CHR '','' # stringify_members (m # ms)"

definition is_ws :: "char \<Rightarrow> bool" where
  "is_ws c = (c = CHR 0x20 \<or> c = CHR 0x09 \<or> c = CHR 0x0A \<or> c = CHR 0x0D)"

definition skip_ws :: "string \<Rightarrow> string" where
  "skip_ws s = dropWhile is_ws s"

primrec strip_prefix :: "string \<Rightarrow> string \<Rightarrow> string option" where
  "strip_prefix [] s = Some s"
| "strip_prefix (p # ps) s =
     (case s of [] \<Rightarrow> None | c # r \<Rightarrow> if c = p then strip_prefix ps r else None)"

definition unescape :: "char \<Rightarrow> char option" where
  "unescape e =
     (if e = CHR 0x22 then Some (CHR 0x22)
      else if e = CHR 0x5C then Some (CHR 0x5C)
      else if e = CHR ''/'' then Some (CHR ''/'')
      else if e = CHR ''b'' then Some (CHR 0x08)
      else if e = CHR ''t'' then Some (CHR 0x09)
      else if e = CHR ''n'' then Some (CHR 0x0A)
      else if e = CHR ''f'' then Some (CHR 0x0C)
      else if e = CHR ''r'' then Some (CHR 0x0D)
      else None)"

definition hex4 :: "char \<Rightarrow> char \<Rightarrow> char \<Rightarrow> char \<Rightarrow> nat option" where
  "hex4 a b c d =
     (case (hex_val a, hex_val b, hex_val c, hex_val d) of
        (Some w, Some x, Some y, Some z) \<Rightarrow> Some (4096 * w + 256 * x + 16 * y + z)
      | _ \<Rightarrow> None)"

definition cons_result :: "char \<Rightarrow> (string \<times> string) option \<Rightarrow> (string \<times> string) option" where
  "cons_result c r = (case r of None \<Rightarrow> None | Some (s, rest) \<Rightarrow> Some (c # s, rest))"

text \<open>The characters of a string literal after its opening quotation mark.\<close>

fun parse_string :: "string \<Rightarrow> (string \<times> string) option" where
  "parse_string [] = None"
| "parse_string (c # r) =
     (if c = CHR 0x22 then Some ([], r)
      else if c = CHR 0x5C then
        (case r of
           [] \<Rightarrow> None
         | e # r' \<Rightarrow>
             if e = CHR ''u'' then
               (case r' of
                  h1 # h2 # h3 # h4 # r'' \<Rightarrow>
                    (case hex4 h1 h2 h3 h4 of
                       None \<Rightarrow> None
                     | Some n \<Rightarrow> if n < 256 then cons_result (char_of n) (parse_string r'') else None)
                | _ \<Rightarrow> None)
             else
               (case unescape e of
                  None \<Rightarrow> None
                | Some ch \<Rightarrow> cons_result ch (parse_string r')))
      else if (of_char c :: nat) < 32 then None
      else cons_result c (parse_string r))"

definition digits_val :: "string \<Rightarrow> nat" where
  "digits_val ds = foldl (\<lambda>a c. 10 * a + digit_val c) 0 ds"

definition parse_number :: "string \<Rightarrow> (json \<times> string) option" where
  "parse_number s =
     (let neg = (s \<noteq> [] \<and> hd s = CHR ''-'');
          s1 = (if neg then tl s else s);
          ds = takeWhile is_digit s1;
          r = dropWhile is_digit s1
      in if ds = [] then None
         else if hd ds = CHR ''0'' \<and> 1 < length ds then None
         else if r \<noteq> [] \<and> (hd r = CHR ''.'' \<or> hd r = CHR ''e'' \<or> hd r = CHR ''E'') then None
         else Some (JNum (if neg then - int (digits_val ds) else int (digits_val ds)), r))"

text \<open>What may follow a value inside a document: nothing, a comma or a closing bracket.\<close>

definition at_delimiter :: "string \<Rightarrow> bool" where
  "at_delimiter rest =
     (rest = [] \<or> hd rest = CHR '','' \<or> hd rest = CHR '']'' \<or> hd rest = CHR ''}'')"

text \<open>Recursive descent with fuel: every nested call spends one unit.\<close>

fun parse_value :: "nat \<Rightarrow> string \<Rightarrow> (json \<times> string) option"
  and parse_elems :: "nat \<Rightarrow> string \<Rightarrow> (json list \<times> string) option"
  and parse_members :: "nat \<Rightarrow> string \<Rightarrow> ((string \<times> json) list \<times> string) option" where
  "parse_value 0 s = None"
| "parse_value (Suc f) s =
     (case skip_ws s of
        [] \<Rightarrow> None
      | c # r \<Rightarrow>
          if c = CHR ''n'' then map_option (Pair JNull) (strip_prefix ''ull'' r)
          else if c = CHR ''t'' then map_option (Pair (JBool True)) (strip_prefix ''rue'' r)
          else if c = CHR ''f'' then map_option (Pair (JBool False)) (strip_prefix ''alse'' r)
          else if c = CHR 0x22 then map_option (apfst JStr) (parse_string r)
          else if c = CHR ''['' then
            (case skip_ws r of
               [] \<Rightarrow> None
             | d # r' \<Rightarrow>
                 if d = CHR '']'' then Some (JArr [], r')
                 else map_option (apfst JArr) (parse_elems f (d # r')))
          else if c = CHR ''{'' then
            (case skip_ws r of
               [] \<Rightarrow> None
             | d # r' \<Rightarrow>
                 if d = CHR ''}'' then Some (JObj [], r')
                 else map_option (apfst JObj) (parse_members f (d # r')))
          else parse_number (c # r))"
| "parse_elems 0 s = None"
| "parse_elems (Suc f) s =
     (case parse_value f s of
        None \<Rightarrow> None
      | Some (v, r) \<Rightarrow>
          (case skip_ws r of
             [] \<Rightarrow> None
           | c # r' \<Rightarrow>
               if c = CHR '','' then map_option (apfst ((#) v)) (parse_elems f r')
               else if c = CHR '']'' then Some ([v], r')
               else None))"
| "parse_members 0 s = None"
| "parse_members (Suc f) s =
     (case skip_ws s of
        [] \<Rightarrow> None
      | q # r \<Rightarrow>
          if q \<noteq> CHR 0x22 then None
          else
            (case parse_string r of
               None \<Rightarrow> None
             | Some (k, r1) \<Rightarrow>
                 (case skip_ws r1 of
                    [] \<Rightarrow> None
                  | c # r2 \<Rightarrow>
                      if c \<noteq> CHR '':'' then None
                      else
                        (case parse_value f r2 of
                           None \<Rightarrow> None
                         | Some (v, r3) \<Rightarrow>
                             (case skip_ws r3 of
                                [] \<Rightarrow> None
                              | d # r4 \<Rightarrow>
                                  if d = CHR '','' then
                                    map_option (apfst ((#) (k, v))) (parse_members f r4)
                                  else if d = CHR ''}'' then Some ([(k, v)], r4)
                                  else None)))))"

text \<open>\<^verbatim>\<open>JSON.parse(text)\<close>; \<open>None\<close> is the \<^verbatim>\<open>SyntaxError\<close>.\<close>

definition parse :: "string \<Rightarrow> json option" where
  "parse s =
     (case parse_value (2 * length s + 2) s of
        None \<Rightarrow> None
      | Some (v, r) \<Rightarrow> if skip_ws r = [] then Some v else None)"

section \<open>The client and its per-call context\<close>

record call_context =
  ctx_logger :: "logger option"
  ctx_gb_logger :: "logger option"

record client =
  baseLogger :: logger
  maxRetries :: nat

text \<open>\<^verbatim>\<open>context.gb?.logger || this.baseLogger\<close>\<close>

definition call_logger :: "client \<Rightarrow> call_context \<Rightarrow> logger" where
  "call_logger cl ctx = (case ctx_gb_logger ctx of Some l \<Rightarrow> l | None \<Rightarrow> baseLogger cl)"

definition no_logger_error :: js_error where
  "no_logger_error =
     \<lparr>err_class = AssertionError, message = ''Constructor must have a logger property'',
      errorCode = None, waitTime = None\<rparr>"

definition undefined_logger_error :: js_error where
  "undefined_logger_error =
     \<lparr>err_class = TypeError, message = ''Cannot read property info of undefined'',
      errorCode = None, waitTime = None\<rparr>"

text \<open>
  The constructor: \<^verbatim>\<open>this.baseLogger = context.logger || context.gb?.logger\<close>, the
  assertion on it, the message sent through \<^verbatim>\<open>context.logger\<close>, and \<^verbatim>\<open>maxRetries\<close> (2
  unless the options give one). A logger that is present has its methods.
\<close>

definition new_client :: "call_context \<Rightarrow> nat option \<Rightarrow> (js_error + client) \<times> event list" where
  "new_client ctx opt_retries =
     (case (case ctx_logger ctx of Some l \<Rightarrow> Some l | None \<Rightarrow> ctx_gb_logger ctx) of
        None \<Rightarrow> (Inl no_logger_error, [])
      | Some base \<Rightarrow>
          (case ctx_logger ctx of
             None \<Rightarrow> (Inl undefined_logger_error, [])
           | Some l \<Rightarrow>
               (Inr \<lparr>baseLogger = base,
                     maxRetries = (case opt_retries of Some m \<Rightarrow> m | None \<Rightarrow> 2)\<rparr>,
                [Log l Info ''Initializing etcd client''])))"

text \<open>\<^verbatim>\<open>getOptions(baseOptions)\<close>, for the options the client itself builds: none, or
  \<^verbatim>\<open>{ ttl }\<close>.\<close>

definition getOptions :: "client \<Rightarrow> nat option \<Rightarrow> etcd_options" where
  "getOptions cl baseOptions = \<lparr>opt_maxRetries = maxRetries cl, opt_ttl = baseOptions\<rparr>"

section \<open>The value store facade\<close>

text \<open>A promise once the store's callback has run: resolved, rejected, or never settled
  (the callback threw before calling \<^verbatim>\<open>accept\<close> or \<^verbatim>\<open>reject\<close>).\<close>

datatype 'a promise = Resolved 'a | Rejected js_error | Unsettled

text \<open>The callback's arguments \<^verbatim>\<open>(error, value)\<close>; of \<^verbatim>\<open>value\<close> the client reads
  \<^verbatim>\<open>value.node.value\<close> only.\<close>

record etcd_body =
  node_value :: "string option"

type_synonym get_response = "js_error option \<times> etcd_body option"

text \<open>
  \<^verbatim>\<open>get(context, key)\<close> without options. In the callback \<^verbatim>\<open>accept()\<close> and
  \<^verbatim>\<open>reject(error)\<close> do not return, so the last \<^verbatim>\<open>accept(...)\<close> always runs: its argument
  is evaluated (\<^verbatim>\<open>JSON.parse\<close> may throw) and it settles the promise only if nothing has
  settled it before.
\<close>

definition get ::
  "client \<Rightarrow> call_context \<Rightarrow> string \<Rightarrow> get_response \<Rightarrow> json option promise \<times> event list" where
  "get cl ctx key resp =
     (let lg = call_logger cl ctx;
          error = fst resp;
          val = snd resp;
          first = (case error of
                     None \<Rightarrow> Unsettled
                   | Some e \<Rightarrow> if errorCode e = Some 100 then Resolved None else Rejected e);
          arg = (case val of
                   None \<Rightarrow> Some (Some JNull)
                 | Some body \<Rightarrow>
                     (case node_value body of
                        None \<Rightarrow> None
                      | Some text \<Rightarrow> map_option Some (parse text)))
      in (case first of
            Unsettled \<Rightarrow> (case arg of None \<Rightarrow> Unsettled | Some v \<Rightarrow> Resolved v)
          | settled \<Rightarrow> settled,
          [Log lg Info ''etcd get'', Emit_start ''get'' key,
           Etcd_get key (getOptions cl None),
           Emit_finish ''get'' key (statusCode error), Log lg Info ''etcd got'']))"

text \<open>
  \<^verbatim>\<open>set(context, key, value, ttlOrOptions)\<close> with a number or nothing as last argument
  (\<open>set_value\<close> here, \<open>set\<close> being taken): a falsy \<^verbatim>\<open>ttlOrOptions\<close> is passed on as it is
  and \<^verbatim>\<open>getOptions\<close> drops it.
\<close>

definition set_options :: "nat option \<Rightarrow> nat option" where
  "set_options ttlOrOptions =
     (case ttlOrOptions of None \<Rightarrow> None | Some t \<Rightarrow> if t \<noteq> 0 then Some t else None)"

definition set_value ::
  "client \<Rightarrow> call_context \<Rightarrow> string \<Rightarrow> json \<Rightarrow> nat option \<Rightarrow> js_error option
     \<Rightarrow> unit promise \<times> event list" where
  "set_value cl ctx key v ttlOrOptions error =
     (let lg = call_logger cl ctx
      in (case error of Some e \<Rightarrow> Rejected e | None \<Rightarrow> Resolved (),
          [Log lg Info ''etcd set'', Emit_start ''set'' key,
           Etcd_set key (stringify v) (getOptions cl (set_options ttlOrOptions)),
           Emit_finish ''set'' key (statusCode error), Log lg Info ''etcd was set'']))"

definition del ::
  "client \<Rightarrow> call_context \<Rightarrow> string \<Rightarrow> js_error option \<Rightarrow> unit promise \<times> event list" where
  "del cl ctx key error =
     (let lg = call_logger cl ctx
      in (case error of Some e \<Rightarrow> Rejected e | None \<Rightarrow> Resolved (),
          [Log lg Info ''etcd del'', Emit_start ''del'' key,
           Etcd_del key (getOptions cl None),
           Emit_finish ''del'' key (statusCode error), Log lg Info ''etcd deleted'']))"

text \<open>
  The store behind the facade, as far as the client can tell: a key it holds answers with
  its document, any other key with error 100. Expiry and the other clients of the store
  are not part of it; a trace is replayed on it by \<open>store_after\<close>, which takes every
  write of the trace as accepted.
\<close>

type_synonym store = "string \<rightharpoonup> string"

definition key_not_found :: js_error where
  "key_not_found =
     \<lparr>err_class = PlainError, message = ''Key not found'', errorCode = Some 100,
      waitTime = None\<rparr>"

definition etcd_get :: "store \<Rightarrow> string \<Rightarrow> get_response" where
  "etcd_get st key =
     (case st key of
        None \<Rightarrow> (Some key_not_found, None)
      | Some text \<Rightarrow> (None, Some \<lparr>node_value = Some text\<rparr>))"

primrec store_after :: "event list \<Rightarrow> store \<Rightarrow> store" where
  "store_after [] st = st"
| "store_after (e # tr) st =
     store_after tr
       (case e of
          Etcd_set key text opts \<Rightarrow> st(key \<mapsto> text)
        | Etcd_del key opts \<Rightarrow> st(key := None)
        | _ \<Rightarrow> st)"

section \<open>Lock acquisition\<close>

record lock =
  lock_key :: string
  holder :: string
  lease :: nat
  lock_logger :: "(logger \<times> string) option"

text \<open>
  What the world answers during one \<^verbatim>\<open>acquireLock\<close>, by attempt number (from 1):
  the result of the \<open>n\<close>-th \<^verbatim>\<open>lock.lock()\<close> (\<open>None\<close> when it resolves, the rejection
  otherwise), the milliseconds that call takes, the milliseconds by which the \<open>n\<close>-th
  timer fires late, and whether the handle's \<^verbatim>\<open>unlock\<close> event has fired by the end of
  the \<open>n\<close>-th delay (the flag \<^verbatim>\<open>alerted\<close>).
\<close>

record lock_env =
  holder_id :: string
  lock_result :: "nat \<Rightarrow> js_error option"
  lock_ms :: "nat \<Rightarrow> nat"
  oversleep :: "nat \<Rightarrow> nat"
  alerted_after :: "nat \<Rightarrow> bool"

definition timeout_error :: "nat \<Rightarrow> js_error" where
  "timeout_error w =
     \<lparr>err_class = PlainError, message = ''Timed out waiting for lock'',
      errorCode = None, waitTime = Some w\<rparr>"

text \<open>The delay requested after the \<open>n\<close>-th failed attempt: \<^verbatim>\<open>delay(250 * attempt)\<close>.\<close>

definition backoff_ms :: "nat \<Rightarrow> nat" where
  "backoff_ms attempt = 250 * attempt"

definition with_prefix :: "event list \<Rightarrow> 'a \<times> event list \<Rightarrow> 'a \<times> event list" where
  "with_prefix pre r = (fst r, pre @ snd r)"

text \<open>
  The loop \<^verbatim>\<open>while (Date.now() - startTime < maxWait * 1000)\<close>. \<open>attempt\<close> is the counter
  before the increment, \<open>elapsed\<close> is \<^verbatim>\<open>Date.now() - startTime\<close> at the loop's test. Time
  passes in \<^verbatim>\<open>lock.lock()\<close> and in the delay only, so the \<^verbatim>\<open>waitTime\<close> read after the loop
  is the \<open>elapsed\<close> of its last test.
\<close>

function acquire_loop ::
  "lock_env \<Rightarrow> logger \<Rightarrow> lock \<Rightarrow> nat \<Rightarrow> nat \<Rightarrow> nat \<Rightarrow> (js_error + lock) \<times> event list" where
  "acquire_loop env lg lk maxWait attempt elapsed =
     (if elapsed < maxWait * 1000 then
        (case lock_result env (attempt + 1) of
           None \<Rightarrow>
             (Inr lk,
              [Lock_lock (lock_key lk), Log lg Info ''Acquired lock'',
               Emit_finish ''acquireLock'' (lock_key lk) (SStr ''acq'')])
         | Some e \<Rightarrow>
             if err_class e \<noteq> AlreadyLockedError then
               (Inl e,
                [Lock_lock (lock_key lk), Log lg Warn ''Lock contention'',
                 Emit_finish ''acquireLock'' (lock_key lk) (SStr ''err'')])
             else if alerted_after env (attempt + 1) then
               (Inr lk,
                [Lock_lock (lock_key lk), Log lg Warn ''Lock contention'',
                 Delay (backoff_ms (attempt + 1)),
                 Emit_finish ''acquireLock'' (lock_key lk) (SStr ''wait-acq'')])
             else
               with_prefix
                 [Lock_lock (lock_key lk), Log lg Warn ''Lock contention'',
                  Delay (backoff_ms (attempt + 1))]
                 (acquire_loop env lg lk maxWait (attempt + 1)
                    (elapsed + lock_ms env (attempt + 1) + backoff_ms (attempt + 1)
                       + oversleep env (attempt + 1))))
      else
        (Inl (timeout_error elapsed),
         [Emit_finish ''acquireLock'' (lock_key lk) (SStr ''timeout'')]))"
  by pat_completeness auto
termination
  by (relation "measure (\<lambda>(env, lg, lk, maxWait, attempt, elapsed). maxWait * 1000 - elapsed)")
     (auto simp: backoff_ms_def)

declare acquire_loop.simps [simp del]

definition acquireLock ::
  "client \<Rightarrow> call_context \<Rightarrow> string \<Rightarrow> nat \<Rightarrow> nat \<Rightarrow> lock_env \<Rightarrow> (js_error + lock) \<times> event list" where
  "acquireLock cl ctx key timeout maxWait env =
     (let lg = call_logger cl ctx;
          lk = \<lparr>lock_key = key, holder = holder_id env, lease = timeout,
                lock_logger = Some (lg, key)\<rparr>
      in with_prefix
           [Log lg Info ''etcd acquire'', Emit_start ''acquireLock'' key,
            Lock_new key (holder_id env) timeout]
           (acquire_loop env lg lk maxWait 0 0))"

text \<open>
  \<^verbatim>\<open>releaseLock(lock)\<close>: \<^verbatim>\<open>unlock\<close>, \<^verbatim>\<open>destroy\<close>, the message through the logger kept on the
  handle; whatever is thrown on the way is caught and dropped.
\<close>

record release_env =
  unlock_result :: "js_error option"
  destroy_result :: "js_error option"

definition releaseLock :: "lock \<Rightarrow> release_env \<Rightarrow> event list" where
  "releaseLock lk env =
     (case unlock_result env of
        Some e \<Rightarrow> [Lock_unlock (lock_key lk)]
      | None \<Rightarrow>
          (case destroy_result env of
             Some e \<Rightarrow> [Lock_unlock (lock_key lk), Lock_destroy (lock_key lk)]
           | None \<Rightarrow>
               [Lock_unlock (lock_key lk), Lock_destroy (lock_key lk)] @
               (case lock_logger lk of
                  None \<Rightarrow> []
                | Some (lg, key) \<Rightarrow> [Log lg Info ''Lock released''])))"

section \<open>Memoize\<close>

text \<open>
  The renewal timer. While the computation and the write are awaited the timer fires zero
  or more times; \<open>renewals\<close> lists what \<^verbatim>\<open>lock.renew()\<close> answers each time (\<open>None\<close> when
  it resolves). A renewal that resolves arms the timer again, one that rejects leaves
  \<^verbatim>\<open>lockRenewPromise\<close> rejected and ends the chain. Only the first \<^verbatim>\<open>setTimeout\<close> is
  recorded in the trace.
\<close>

datatype renew_state = No_renewal | Renewed | Renew_failed js_error

fun renew_chain ::
  "logger \<Rightarrow> string \<Rightarrow> js_error option list \<Rightarrow> renew_state \<Rightarrow> renew_state \<times> event list" where
  "renew_chain lg k [] st = (st, [])"
| "renew_chain lg k (None # rs) st =
     with_prefix [Log lg Info ''Renewing lock'', Lock_renew k] (renew_chain lg k rs Renewed)"
| "renew_chain lg k (Some e # rs) st =
     (Renew_failed e, [Log lg Info ''Renewing lock'', Lock_renew k])"

text \<open>What the world answers during one \<^verbatim>\<open>memoize\<close>: the two probes of the value key,
  the lock acquisition, the computation (\<open>Inl\<close> what it throws), the renewals, the write
  and the release.\<close>

record memo_env =
  probe1 :: get_response
  lockenv :: lock_env
  probe2 :: get_response
  func_result :: "js_error + json option"
  renewals :: "js_error option list"
  set_result :: "js_error option"
  release :: release_env

text \<open>\<^verbatim>\<open>(await func()) || {}\<close>\<close>

definition or_empty :: "json option \<Rightarrow> json" where
  "or_empty v = (case v of None \<Rightarrow> JObj [] | Some j \<Rightarrow> if truthy (Some j) then j else JObj [])"

text \<open>
  The \<^verbatim>\<open>finally\<close> block once the timer has been set: \<^verbatim>\<open>clearTimeout\<close>, then
  \<^verbatim>\<open>await lockRenewPromise\<close>, which throws what a failed renewal rejected with and so
  leaves the block before \<^verbatim>\<open>releaseLock\<close>; what it throws replaces the pending outcome.
\<close>

definition cleanup ::
  "renew_state \<Rightarrow> lock \<Rightarrow> release_env \<Rightarrow> json option promise \<Rightarrow> json option promise \<times> event list" where
  "cleanup rs lk renv pending =
     (case rs of
        Renew_failed e \<Rightarrow> (Rejected e, [Clear_timeout])
      | _ \<Rightarrow> (pending, Clear_timeout # releaseLock lk renv))"

text \<open>The computation branch of \<^verbatim>\<open>memoize\<close>: timer, \<^verbatim>\<open>func()\<close>, the write unless
  \<^verbatim>\<open>ttl\<close> is 0, then \<^verbatim>\<open>catch\<close> and \<^verbatim>\<open>finally\<close>.\<close>

definition compute ::
  "client \<Rightarrow> call_context \<Rightarrow> string \<Rightarrow> nat \<Rightarrow> nat \<Rightarrow> lock \<Rightarrow> memo_env
     \<Rightarrow> json option promise \<times> event list" where
  "compute cl ctx key ttl timeout lk env =
     (let lg = call_logger cl ctx;
          lockKey = key @ ''-lock'';
          valueKey = key @ ''-value'';
          renewWait = timeout * 1000 div 2;
          chain = renew_chain lg lockKey (renewals env) No_renewal;
          started = Set_timeout renewWait # Call_func # snd chain
      in (case func_result env of
            Inl e \<Rightarrow>
              with_prefix (started @ [Emit_finish ''memoize'' key (SStr ''err'')])
                (cleanup (fst chain) lk (release env) (Rejected e))
          | Inr v \<Rightarrow>
              if ttl \<noteq> 0 then
                (case set_value cl ctx valueKey (or_empty v) (Some ttl) (set_result env) of
                   (Resolved u, tr) \<Rightarrow>
                     with_prefix (started @ tr @ [Emit_finish ''memoize'' key (SStr ''val-eval'')])
                       (cleanup (fst chain) lk (release env) (Resolved (Some (or_empty v))))
                 | (Rejected e, tr) \<Rightarrow>
                     with_prefix (started @ tr @ [Emit_finish ''memoize'' key (SStr ''err'')])
                       (cleanup (fst chain) lk (release env) (Rejected e))
                 | (Unsettled, tr) \<Rightarrow> (Unsettled, started @ tr))
              else
                with_prefix (started @ [Emit_finish ''memoize'' key (SStr ''val-eval'')])
                  (cleanup (fst chain) lk (release env) (Resolved (Some (or_empty v))))))"

definition memoize ::
  "client \<Rightarrow> call_context \<Rightarrow> string \<Rightarrow> nat \<Rightarrow> nat \<Rightarrow> nat \<Rightarrow> memo_env
     \<Rightarrow> json option promise \<times> event list" where
  "memoize cl ctx key ttl timeout maxWait env =
     (let lg = call_logger cl ctx;
          lockKey = key @ ''-lock'';
          valueKey = key @ ''-value''
      in with_prefix [Log lg Info ''etcd memoize'', Emit_start ''memoize'' key]
           (case get cl ctx valueKey (probe1 env) of
              (Unsettled, t1) \<Rightarrow> (Unsettled, t1)
            | (Rejected e, t1) \<Rightarrow> (Rejected e, t1 @ [Emit_finish ''memoize'' key (SStr ''err'')])
            | (Resolved v1, t1) \<Rightarrow>
                if truthy v1 then
                  (Resolved v1, t1 @ [Emit_finish ''memoize'' key (SStr ''val-prelock'')])
                else
                  with_prefix t1
                    (case acquireLock cl ctx lockKey timeout maxWait (lockenv env) of
                       (Inl e, t2) \<Rightarrow>
                         (Rejected e, t2 @ [Emit_finish ''memoize'' key (SStr ''err'')])
                     | (Inr lk, t2) \<Rightarrow>
                         with_prefix t2
                           (case get cl ctx valueKey (probe2 env) of
                              (Unsettled, t3) \<Rightarrow> (Unsettled, t3)
                            | (Rejected e, t3) \<Rightarrow>
                                (Rejected e,
                                 t3 @ Emit_finish ''memoize'' key (SStr ''err'')
                                    # releaseLock lk (release env))
                            | (Resolved v2, t3) \<Rightarrow>
                                if truthy v2 then
                                  (Resolved v2,
                                   t3 @ Emit_finish ''memoize'' key (SStr ''val-postlock'')
                                      # releaseLock lk (release env))
                                else
                                  with_prefix t3 (compute cl ctx key ttl timeout lk env)))))"

section \<open>Reading a trace\<close>

primrec delays :: "event list \<Rightarrow> nat list" where
  "delays [] = []"
| "delays (e # tr) = (case e of Delay ms \<Rightarrow> ms # delays tr | _ \<Rightarrow> delays tr)"

primrec lock_attempts :: "event list \<Rightarrow> nat" where
  "lock_attempts [] = 0"
| "lock_attempts (e # tr) = (case e of Lock_lock k \<Rightarrow> Suc (lock_attempts tr) | _ \<Rightarrow> lock_attempts tr)"

text \<open>The keys a trace writes to: the store's \<^verbatim>\<open>set\<close> and \<^verbatim>\<open>del\<close>, and the lock
  handle's \<^verbatim>\<open>lock\<close>, \<^verbatim>\<open>renew\<close> and \<^verbatim>\<open>unlock\<close>, which create, refresh and delete the
  entry at the handle's key.\<close>

primrec written_keys :: "event list \<Rightarrow> string set" where
  "written_keys [] = {}"
| "written_keys (e # tr) =
     (case e of
        Etcd_set k text opts \<Rightarrow> {k}
      | Etcd_del k opts \<Rightarrow> {k}
      | Lock_lock k \<Rightarrow> {k}
      | Lock_renew k \<Rightarrow> {k}
      | Lock_unlock k \<Rightarrow> {k}
      | _ \<Rightarrow> {}) \<union> written_keys tr"

text \<open>A trace without the messages sent to loggers.\<close>

primrec quiet :: "event list \<Rightarrow> event list" where
  "quiet [] = []"
| "quiet (e # tr) = (case e of Log lg lv msg \<Rightarrow> quiet tr | _ \<Rightarrow> e # quiet tr)"

text \<open>The backoff formula in the specification's words:
  \<^verbatim>\<open>min(step_delay * attempt_number, cap)\<close>.\<close>

definition spec_backoff :: "nat \<Rightarrow> nat \<Rightarrow> nat \<Rightarrow> nat" where
  "spec_backoff step_delay cap attempt_number = min (step_delay * attempt_number) cap"

section \<open>Concrete scenarios\<close>

definition winston :: logger where
  "winston = Logger ''winston''"

definition cl0 :: client where
  "cl0 = \<lparr>baseLogger = winston, maxRetries = 2\<rparr>"

definition ctx0 :: call_context where
  "ctx0 = \<lparr>ctx_logger = Some winston, ctx_gb_logger = Some winston\<rparr>"

definition already_locked :: js_error where
  "already_locked =
     \<lparr>err_class = AlreadyLockedError, message = ''Key is already locked'',
      errorCode = None, waitTime = None\<rparr>"

text \<open>A lock that stays held by another client: every attempt is refused, calls take no
  time, timers fire on time, and the \<^verbatim>\<open>unlock\<close> event fires according to \<open>al\<close>.\<close>

definition contended :: "(nat \<Rightarrow> bool) \<Rightarrow> lock_env" where
  "contended al =
     \<lparr>holder_id = ''holder-1'', lock_result = (\<lambda>n. Some already_locked),
      lock_ms = (\<lambda>n. 0), oversleep = (\<lambda>n. 0), alerted_after = al\<rparr>"

definition bare_ctx :: call_context where
  "bare_ctx = \<lparr>ctx_logger = None, ctx_gb_logger = None\<rparr>"

definition free_lock :: lock_env where
  "free_lock =
     \<lparr>holder_id = ''holder-1'', lock_result = (\<lambda>n. None),
      lock_ms = (\<lambda>n. 0), oversleep = (\<lambda>n. 0), alerted_after = (\<lambda>n. False)\<rparr>"

definition clean_release :: release_env where
  "clean_release = \<lparr>unlock_result = None, destroy_result = None\<rparr>"

definition boom :: js_error where
  "boom =
     \<lparr>err_class = PlainError, message = ''computation failed'', errorCode = None,
      waitTime = None\<rparr>"

definition lease_lost :: js_error where
  "lease_lost =
     \<lparr>err_class = PlainError, message = ''renewal refused'', errorCode = None,
      waitTime = None\<rparr>"

text \<open>A \<^verbatim>\<open>memoize\<close> of key \<^verbatim>\<open>job\<close> against the store \<open>st\<close> with the lock free: both probes
  read \<open>st\<close>, the computation answers \<open>f\<close>, the renewals answer \<open>rs\<close>, the write and the
  release succeed.\<close>

definition job_env :: "store \<Rightarrow> js_error + json option \<Rightarrow> js_error option list \<Rightarrow> memo_env" where
  "job_env st f rs =
     \<lparr>probe1 = etcd_get st ''job-value'', lockenv = free_lock,
      probe2 = etcd_get st ''job-value'', func_result = f, renewals = rs,
      set_result = None, release = clean_release\<rparr>"

section \<open>Traces\<close>

lemma written_keys_append [simp]: "written_keys (xs @ ys) = written_keys xs \<union> written_keys ys"
  by (induction xs) (auto split: event.splits)

lemma quiet_append [simp]: "quiet (xs @ ys) = quiet xs @ quiet ys"
  by (induction xs) (auto split: event.splits)

lemma fst_with_prefix [simp]: "fst (with_prefix p r) = fst r"
  by (simp add: with_prefix_def)

lemma snd_with_prefix [simp]: "snd (with_prefix p r) = p @ snd r"
  by (simp add: with_prefix_def)

section \<open>Backoff and timeout of the lock acquisition\<close>

lemma upt_shift: "[Suc a..<Suc (a + Suc k)] = Suc a # [Suc (a + 1)..<Suc (a + 1 + k)]"
  by (subst upt_rec) (simp del: upt_Suc)

text \<open>
  From any state of the loop the delays requested are those of consecutive attempt
  numbers. A loop state \<open>(a, t)\<close> that is reached after \<open>a\<close> refused attempts has waited
  \<open>250 * (1 + ... + a)\<close> milliseconds at least, which bounds the number of further delays
  through \<open>maxWait\<close>.
\<close>

lemma loop_delays:
  "125 * a * (a + 1) \<le> t \<Longrightarrow>
   \<exists>k. delays (snd (acquire_loop env lg lk maxWait a t)) = map backoff_ms [Suc a..<Suc (a + k)]
     \<and> (k = 0 \<or> 125 * (a + k - 1) * (a + k) < 1000 * maxWait)"
proof (induction env lg lk maxWait a t rule: acquire_loop.induct)
  case (1 env lg lk maxWait attempt elapsed)
  let ?n = "attempt + 1"
  let ?t' = "elapsed + lock_ms env ?n + backoff_ms ?n + oversleep env ?n"
  show ?case
  proof (cases "elapsed < maxWait * 1000")
    case False
    then have "delays (snd (acquire_loop env lg lk maxWait attempt elapsed)) = []"
      by (simp add: acquire_loop.simps)
    then show ?thesis by (intro exI[of _ 0]) simp
  next
    case lt: True
    show ?thesis
    proof (cases "lock_result env ?n")
      case None
      with lt have "delays (snd (acquire_loop env lg lk maxWait attempt elapsed)) = []"
        by (simp add: acquire_loop.simps)
      then show ?thesis by (intro exI[of _ 0]) simp
    next
      case (Some e)
      have bound1: "125 * (attempt + 1 - 1) * (attempt + 1) < 1000 * maxWait"
        using lt "1.prems" by simp
      show ?thesis
      proof (cases "err_class e \<noteq> AlreadyLockedError")
        case True
        with lt Some have "delays (snd (acquire_loop env lg lk maxWait attempt elapsed)) = []"
          by (simp add: acquire_loop.simps)
        then show ?thesis by (intro exI[of _ 0]) simp
      next
        case cont: False
        show ?thesis
        proof (cases "alerted_after env ?n")
          case True
          with lt Some cont
          have "delays (snd (acquire_loop env lg lk maxWait attempt elapsed)) = [backoff_ms ?n]"
            by (simp add: acquire_loop.simps)
          with bound1 show ?thesis by (intro exI[of _ 1]) simp
        next
          case False
          have pre: "125 * ?n * (?n + 1) \<le> ?t'"
            using "1.prems" by (simp add: backoff_ms_def algebra_simps)
          from "1.IH"[OF lt Some cont False pre] obtain k where
            k: "delays (snd (acquire_loop env lg lk maxWait ?n ?t')) =
                  map backoff_ms [Suc ?n..<Suc (?n + k)]"
            and kb: "k = 0 \<or> 125 * (?n + k - 1) * (?n + k) < 1000 * maxWait"
            by blast
          from lt Some cont False
          have unf: "delays (snd (acquire_loop env lg lk maxWait attempt elapsed)) =
                backoff_ms ?n # delays (snd (acquire_loop env lg lk maxWait ?n ?t'))"
            by (subst acquire_loop.simps) (simp add: with_prefix_def)
          have "delays (snd (acquire_loop env lg lk maxWait attempt elapsed)) =
                map backoff_ms [Suc attempt..<Suc (attempt + Suc k)]"
            unfolding unf k upt_shift by simp
          moreover have "125 * (attempt + Suc k - 1) * (attempt + Suc k) < 1000 * maxWait"
            using kb bound1 by auto
          ultimately show ?thesis by (intro exI[of _ "Suc k"]) simp
        qed
      qed
    qed
  qed
qed

text \<open>
  Claim C2, as amended. The delay requested after the \<open>n\<close>-th refused attempt of a call is
  \<open>250 * n\<close> milliseconds, the attempts being numbered from 1 and the number growing by
  one with each attempt. No cap is applied: a call requests the delays
  \<open>250, 500, ..., 250 * k\<close>, and \<open>k\<close> is bounded only through the caller's budget, by
  \<open>(k - 1) * k < 8 * maxWait\<close>.
\<close>

theorem backoff_linear_uncapped:
  "\<exists>k. delays (snd (acquireLock cl ctx key timeout maxWait env)) = map (\<lambda>n. 250 * n) [1..<Suc k]
     \<and> (k = 0 \<or> (k - 1) * k < 8 * maxWait)"
proof -
  let ?lg = "call_logger cl ctx"
  let ?lk = "\<lparr>lock_key = key, holder = holder_id env, lease = timeout,
               lock_logger = Some (?lg, key)\<rparr>"
  from loop_delays[of 0 0 env ?lg ?lk maxWait] obtain k where
    d: "delays (snd (acquire_loop env ?lg ?lk maxWait 0 0)) = map backoff_ms [Suc 0..<Suc k]"
    and b: "k = 0 \<or> 125 * (k - 1) * k < 1000 * maxWait"
    by auto
  have "delays (snd (acquireLock cl ctx key timeout maxWait env)) = map (\<lambda>n. 250 * n) [1..<Suc k]"
    using d by (simp add: acquireLock_def Let_def with_prefix_def backoff_ms_def[abs_def])
  moreover have "k = 0 \<or> (k - 1) * k < 8 * maxWait"
    using b by (auto simp: mult.commute)
  ultimately show ?thesis by blast
qed

text \<open>
  Claim C2 as stated fails: with the default budget of 30 seconds and a lock that stays
  held, the fifth delay is 1250 ms, where the specification's formula with a step of
  250 ms and the largest cap in the hundreds of milliseconds gives 999 ms.
\<close>

theorem backoff_cap_counterexample:
  "delays (snd (acquireLock cl0 ctx0 ''job-lock'' 10 30 (contended (\<lambda>n. False)))) ! 4 = 1250
   \<and> spec_backoff 250 999 5 = 999"
  by (simp add: acquireLock_def Let_def with_prefix_def contended_def already_locked_def
      acquire_loop.simps backoff_ms_def spec_backoff_def)

text \<open>
  No cap at all bounds the delays: against a lock that stays held, with calls that take no
  time, the attempt \<open>n\<close> is made and followed by its delay whenever the delays before it
  fit the budget; so for every cap some budget makes a call wait longer than the cap.
\<close>

lemma delay_reached:
  "a < n \<Longrightarrow> 125 * (n - 1) * n < 1000 * maxWait \<Longrightarrow>
   Delay (250 * n) \<in> set (snd (acquire_loop (contended (\<lambda>n. False)) lg lk maxWait a
                                (125 * a * (a + 1))))"
proof (induction a rule: strict_inc_induct)
  case (base i)
  then have "125 * i * (i + 1) < maxWait * 1000"
    by (simp add: mult.commute)
  then show ?case using base
    by (subst acquire_loop.simps)
      (simp add: contended_def already_locked_def backoff_ms_def)
next
  case (step i)
  have le: "i * (i + 1) \<le> (n - 1) * n"
    using step.hyps by (intro mult_le_mono) simp_all
  have p: "125 * ((n - 1) * n) < 1000 * maxWait"
    using step.prems by (simp only: mult.assoc)
  from le p have "125 * (i * (i + 1)) < 1000 * maxWait"
    by linarith
  then have lt: "125 * i * (i + 1) < maxWait * 1000"
    by (simp only: mult.assoc mult.commute[of maxWait 1000])
  have nxt: "125 * i * (i + 1) + 250 * (i + 1) = 125 * Suc i * (Suc i + 1)"
    by (simp add: algebra_simps)
  have unf: "snd (acquire_loop (contended (\<lambda>n. False)) lg lk maxWait i (125 * i * (i + 1))) =
      [Lock_lock (lock_key lk), Log lg Warn ''Lock contention'', Delay (250 * (i + 1))]
      @ snd (acquire_loop (contended (\<lambda>n. False)) lg lk maxWait (Suc i)
               (125 * Suc i * (Suc i + 1)))"
    using lt
    by (subst acquire_loop.simps, subst nxt[symmetric])
      (simp add: contended_def already_locked_def backoff_ms_def)
  show ?case
    unfolding unf using step.IH[OF step.prems] by simp
qed

lemma backoff_exceeds_every_cap:
  "\<exists>maxWait d. d \<in> set (delays (snd (acquireLock cl ctx key timeout maxWait
                                      (contended (\<lambda>n. False))))) \<and> cap < d"
proof -
  let ?n = "cap + 1"
  let ?lg = "call_logger cl ctx"
  let ?lk = "\<lparr>lock_key = key, holder = holder_id (contended (\<lambda>n. False)), lease = timeout,
               lock_logger = Some (?lg, key)\<rparr>"
  have "125 * (?n - 1) * ?n < 1000 * (?n * ?n)"
    by (simp add: algebra_simps)
  from delay_reached[of 0 ?n "?n * ?n" ?lg ?lk, OF _ this]
  have "Delay (250 * ?n) \<in> set (snd (acquire_loop (contended (\<lambda>n. False)) ?lg ?lk (?n * ?n) 0 0))"
    by simp
  then have "Delay (250 * ?n) \<in> set (snd (acquireLock cl ctx key timeout (?n * ?n)
                                      (contended (\<lambda>n. False))))"
    by (simp add: acquireLock_def Let_def)
  moreover have "\<And>tr d. Delay d \<in> set tr \<Longrightarrow> d \<in> set (delays tr)"
  proof -
    fix tr d show "Delay d \<in> set tr \<Longrightarrow> d \<in> set (delays tr)"
      by (induction tr) (auto split: event.splits)
  qed
  ultimately have "250 * ?n \<in> set (delays (snd (acquireLock cl ctx key timeout (?n * ?n)
                                      (contended (\<lambda>n. False)))))"
    by blast
  moreover have "cap < 250 * ?n" by simp
  ultimately show ?thesis by blast
qed


text \<open>
  The same holds of every call that ends with status \<^verbatim>\<open>wait-acq\<close>: it returns the handle,
  and every \<^verbatim>\<open>lock.lock()\<close> it made was refused.
\<close>

lemma lock_attempts_append: "lock_attempts (xs @ ys) = lock_attempts xs + lock_attempts ys"
  by (induction xs) (auto split: event.splits)

lemma wait_acq_loop:
  "Emit_finish ''acquireLock'' (lock_key lk) (SStr ''wait-acq'')
     \<in> set (snd (acquire_loop env lg lk maxWait a t)) \<Longrightarrow>
   fst (acquire_loop env lg lk maxWait a t) = Inr lk
   \<and> (\<forall>n. a < n \<and> n \<le> a + lock_attempts (snd (acquire_loop env lg lk maxWait a t))
          \<longrightarrow> lock_result env n \<noteq> None)"
proof (induction env lg lk maxWait a t rule: acquire_loop.induct)
  case (1 env lg lk maxWait attempt elapsed)
  let ?n = "attempt + 1"
  let ?t' = "elapsed + lock_ms env ?n + backoff_ms ?n + oversleep env ?n"
  let ?L = "acquire_loop env lg lk maxWait attempt elapsed"
  from "1.prems" have lt: "elapsed < maxWait * 1000"
    by (subst (asm) acquire_loop.simps) (auto split: if_splits)
  from "1.prems" lt obtain e where e: "lock_result env ?n = Some e"
    by (subst (asm) acquire_loop.simps) (auto split: option.splits)
  from "1.prems" lt e have c: "\<not> err_class e \<noteq> AlreadyLockedError"
    by (subst (asm) acquire_loop.simps) (auto split: if_splits)
  show ?case
  proof (cases "alerted_after env ?n")
    case True
    with lt e c have "?L = (Inr lk,
                [Lock_lock (lock_key lk), Log lg Warn ''Lock contention'', Delay (backoff_ms ?n),
                 Emit_finish ''acquireLock'' (lock_key lk) (SStr ''wait-acq'')])"
      by (subst acquire_loop.simps) simp
    with e show ?thesis
      by (auto simp: le_Suc_eq)
  next
    case False
    let ?R = "acquire_loop env lg lk maxWait ?n ?t'"
    from lt e c False have L: "?L = with_prefix
        [Lock_lock (lock_key lk), Log lg Warn ''Lock contention'', Delay (backoff_ms ?n)] ?R"
      by (subst acquire_loop.simps) simp
    with "1.prems" have "Emit_finish ''acquireLock'' (lock_key lk) (SStr ''wait-acq'') \<in> set (snd ?R)"
      by simp
    from "1.IH"[OF lt e c False this] have r: "fst ?R = Inr lk"
      and all: "\<forall>n. ?n < n \<and> n \<le> ?n + lock_attempts (snd ?R) \<longrightarrow> lock_result env n \<noteq> None"
      by blast+
    have att: "lock_attempts (snd ?L) = Suc (lock_attempts (snd ?R))"
      by (simp add: L)
    have "\<forall>n. attempt < n \<and> n \<le> attempt + lock_attempts (snd ?L) \<longrightarrow> lock_result env n \<noteq> None"
    proof (intro allI impI)
      fix n assume n: "attempt < n \<and> n \<le> attempt + lock_attempts (snd ?L)"
      show "lock_result env n \<noteq> None"
      proof (cases "n = ?n")
        case True
        with e show ?thesis by simp
      next
        case False
        with n att have "?n < n \<and> n \<le> ?n + lock_attempts (snd ?R)" by simp
        with all show ?thesis by blast
      qed
    qed
    with r L show ?thesis by simp
  qed
qed

lemma wait_acq_never_acquired:
  assumes "Emit_finish ''acquireLock'' key (SStr ''wait-acq'')
     \<in> set (snd (acquireLock cl ctx key timeout maxWait env))"
  shows "(\<exists>lk. fst (acquireLock cl ctx key timeout maxWait env) = Inr lk)
   \<and> (\<forall>n. 0 < n \<and> n \<le> lock_attempts (snd (acquireLock cl ctx key timeout maxWait env))
          \<longrightarrow> lock_result env n \<noteq> None)"
proof -
  let ?lg = "call_logger cl ctx"
  let ?lk = "\<lparr>lock_key = key, holder = holder_id env, lease = timeout,
               lock_logger = Some (?lg, key)\<rparr>"
  from assms have "Emit_finish ''acquireLock'' (lock_key ?lk) (SStr ''wait-acq'')
     \<in> set (snd (acquire_loop env ?lg ?lk maxWait 0 0))"
    by (simp add: acquireLock_def Let_def)
  from wait_acq_loop[OF this] show ?thesis
    by (simp add: acquireLock_def Let_def)
qed


text \<open>
  Without the \<^verbatim>\<open>unlock\<close> event the budget is kept: when every attempt is refused and
  the event is never seen, the call ends with the timeout error, whose \<^verbatim>\<open>waitTime\<close> is
  the time elapsed and is at least \<^verbatim>\<open>maxWait\<close> seconds.
\<close>

lemma acquire_loop_timeout:
  assumes "\<forall>n. \<exists>e. lock_result env n = Some e \<and> err_class e = AlreadyLockedError"
    and "\<forall>n. \<not> alerted_after env n"
  shows "\<exists>w. fst (acquire_loop env lg lk maxWait a t) = Inl (timeout_error w)
           \<and> maxWait * 1000 \<le> w \<and> t \<le> w"
  using assms
proof (induction env lg lk maxWait a t rule: acquire_loop.induct)
  case (1 env lg lk maxWait attempt elapsed)
  let ?n = "attempt + 1"
  let ?t' = "elapsed + lock_ms env ?n + backoff_ms ?n + oversleep env ?n"
  show ?case
  proof (cases "elapsed < maxWait * 1000")
    case False
    then have "fst (acquire_loop env lg lk maxWait attempt elapsed) = Inl (timeout_error elapsed)"
      by (simp add: acquire_loop.simps)
    with False show ?thesis by (intro exI[of _ elapsed]) simp
  next
    case lt: True
    from "1.prems"(1) obtain e where e: "lock_result env ?n = Some e"
      and c: "\<not> err_class e \<noteq> AlreadyLockedError"
      by auto
    from "1.prems"(2) have na: "\<not> alerted_after env ?n" by simp
    from "1.IH"[OF lt e c na "1.prems"] obtain w where
      w: "fst (acquire_loop env lg lk maxWait ?n ?t') = Inl (timeout_error w)"
      and b: "maxWait * 1000 \<le> w" "?t' \<le> w"
      by blast
    from lt e c na
    have "fst (acquire_loop env lg lk maxWait attempt elapsed) =
          fst (acquire_loop env lg lk maxWait ?n ?t')"
      by (subst acquire_loop.simps) (simp add: with_prefix_def)
    with w b show ?thesis by (intro exI[of _ w]) simp
  qed
qed

lemma acquireLock_timeout_without_alert:
  assumes "\<forall>n. \<exists>e. lock_result env n = Some e \<and> err_class e = AlreadyLockedError"
    and "\<forall>n. \<not> alerted_after env n"
  shows "\<exists>w. fst (acquireLock cl ctx key timeout maxWait env) = Inl (timeout_error w)
           \<and> maxWait * 1000 \<le> w"
  using acquire_loop_timeout[OF assms, of "call_logger cl ctx" _ maxWait 0 0]
  by (simp add: acquireLock_def Let_def with_prefix_def)

section \<open>Reads\<close>

text \<open>
  Claim C7. When the store's callback carries an error, \<^verbatim>\<open>get\<close> resolves without a value
  if the error's code is 100 and rejects with that very error (its \<^verbatim>\<open>errorCode\<close> included)
  otherwise, whatever else the callback carries; a key the store does not hold reads as
  absent.
\<close>

theorem get_not_found_absent:
  "fst (get cl ctx key (Some e, val)) =
     (if errorCode e = Some 100 then Resolved None else Rejected e)
   \<and> fst (get cl ctx key (etcd_get (st(key := None)) key)) = Resolved None"
  by (simp add: get_def Let_def etcd_get_def key_not_found_def)

section \<open>Keys written by the operations\<close>

lemma written_get [simp]: "written_keys (snd (get cl ctx key resp)) = {}"
  by (simp add: get_def Let_def)

lemma written_set_value [simp]: "written_keys (snd (set_value cl ctx key v t err)) = {key}"
  by (simp add: set_value_def Let_def)

lemma written_releaseLock: "written_keys (releaseLock lk renv) \<subseteq> {lock_key lk}"
  by (auto simp: releaseLock_def split: option.splits)

lemma written_renew_chain: "written_keys (snd (renew_chain lg k rs st)) \<subseteq> {k}"
  by (induction lg k rs st rule: renew_chain.induct) auto

lemma acquire_loop_key:
  "written_keys (snd (acquire_loop env lg lk maxWait a t)) \<subseteq> {lock_key lk}
   \<and> (\<forall>l. fst (acquire_loop env lg lk maxWait a t) = Inr l \<longrightarrow> l = lk)"
proof (induction env lg lk maxWait a t rule: acquire_loop.induct)
  case (1 env lg lk maxWait attempt elapsed)
  show ?case
    by (subst (1 2) acquire_loop.simps) (use 1 in \<open>auto split: option.splits\<close>)
qed

lemma written_acquireLock:
  "written_keys (snd (acquireLock cl ctx k timeout maxWait env)) \<subseteq> {k}"
  using acquire_loop_key[of env "call_logger cl ctx"
      "\<lparr>lock_key = k, holder = holder_id env, lease = timeout,
        lock_logger = Some (call_logger cl ctx, k)\<rparr>" maxWait 0 0]
  by (auto simp: acquireLock_def Let_def)

lemma acquireLock_key:
  "fst (acquireLock cl ctx k timeout maxWait env) = Inr l \<Longrightarrow> lock_key l = k"
  using acquire_loop_key[of env "call_logger cl ctx"
      "\<lparr>lock_key = k, holder = holder_id env, lease = timeout,
        lock_logger = Some (call_logger cl ctx, k)\<rparr>" maxWait 0 0]
  by (auto simp: acquireLock_def Let_def)

lemma written_cleanup:
  "written_keys (snd (cleanup rs lk renv pending)) \<subseteq> {lock_key lk}"
  using written_releaseLock[of lk renv]
  by (auto simp: cleanup_def split: renew_state.splits)

lemma written_compute:
  "written_keys (snd (compute cl ctx key ttl timeout lk env))
     \<subseteq> {key @ ''-value'', key @ ''-lock'', lock_key lk}"
  using written_cleanup[of _ lk "release env"]
    written_renew_chain[of "call_logger cl ctx" "key @ ''-lock''" "renewals env" No_renewal]
  by (auto simp: compute_def Let_def case_prod_beta split: sum.splits promise.splits)

section \<open>Frame of memoize\<close>

text \<open>
  Claim C10. Whatever the store, the lock and the computation answer, the writes that
  \<^verbatim>\<open>memoize(context, key, ...)\<close> issues (the store's \<^verbatim>\<open>set\<close> and \<^verbatim>\<open>del\<close>, the handle's
  \<^verbatim>\<open>lock\<close>, \<^verbatim>\<open>renew\<close> and \<^verbatim>\<open>unlock\<close>) go to \<^verbatim>\<open><key>-value\<close> and \<^verbatim>\<open><key>-lock\<close> only, and
  the caller's key is neither of the two.
\<close>

theorem memoize_writes_only_derived_keys:
  "written_keys (snd (memoize cl ctx key ttl timeout maxWait env))
     \<subseteq> {key @ ''-value'', key @ ''-lock''}
   \<and> key \<notin> {key @ ''-value'', key @ ''-lock''}"
proof
  let ?A = "acquireLock cl ctx (key @ ''-lock'') timeout maxWait (lockenv env)"
  have a: "written_keys (snd ?A) \<subseteq> {key @ ''-lock''}"
    by (rule written_acquireLock)
  have r: "\<And>l. fst ?A = Inr l \<Longrightarrow> written_keys (releaseLock l (release env)) \<subseteq> {key @ ''-lock''}"
    using written_releaseLock acquireLock_key by blast
  have c: "\<And>l. fst ?A = Inr l \<Longrightarrow>
      written_keys (snd (compute cl ctx key ttl timeout l env)) \<subseteq> {key @ ''-value'', key @ ''-lock''}"
    using written_compute[of cl ctx key ttl timeout _ env] acquireLock_key[of cl ctx "key @ ''-lock''"]
    by fastforce
  show "written_keys (snd (memoize cl ctx key ttl timeout maxWait env))
     \<subseteq> {key @ ''-value'', key @ ''-lock''}"
    using a r c
    by (auto simp: memoize_def Let_def case_prod_beta split: promise.splits sum.splits if_splits)
  show "key \<notin> {key @ ''-value'', key @ ''-lock''}"
    by simp
qed

section \<open>The logger\<close>

text \<open>Two contexts change the messages of an operation and nothing else.\<close>

lemma get_relog:
  "fst (get cl ctx key resp) = fst (get cl ctx' key resp)"
  "quiet (snd (get cl ctx key resp)) = quiet (snd (get cl ctx' key resp))"
  by (simp_all add: get_def Let_def)

lemma set_value_relog:
  "fst (set_value cl ctx key v t err) = fst (set_value cl ctx' key v t err)"
  "quiet (snd (set_value cl ctx key v t err)) = quiet (snd (set_value cl ctx' key v t err))"
  by (simp_all add: set_value_def Let_def)

lemma del_relog:
  "fst (del cl ctx key err) = fst (del cl ctx' key err)"
  "quiet (snd (del cl ctx key err)) = quiet (snd (del cl ctx' key err))"
  by (simp_all add: del_def Let_def)

lemma releaseLock_relog:
  "lock_key lk = lock_key lk' \<Longrightarrow> quiet (releaseLock lk renv) = quiet (releaseLock lk' renv)"
  by (simp add: releaseLock_def split: option.splits)

lemma renew_chain_relog:
  "fst (renew_chain lg k rs st) = fst (renew_chain lg' k rs st)
   \<and> quiet (snd (renew_chain lg k rs st)) = quiet (snd (renew_chain lg' k rs st))"
  by (induction lg k rs st rule: renew_chain.induct) auto

lemma acquire_loop_relog:
  "lock_key lk = lock_key lk' \<Longrightarrow>
   map_sum (\<lambda>e. e) lock_key (fst (acquire_loop env lg lk m a t)) =
     map_sum (\<lambda>e. e) lock_key (fst (acquire_loop env lg' lk' m a t))
   \<and> quiet (snd (acquire_loop env lg lk m a t)) = quiet (snd (acquire_loop env lg' lk' m a t))"
proof (induction env lg lk m a t rule: acquire_loop.induct)
  case (1 env lg lk maxWait attempt elapsed)
  show ?case
    by (subst (1 2) acquire_loop.simps[of env lg lk], subst (1 2) acquire_loop.simps[of env lg' lk'])
       (use 1 in \<open>auto split: option.splits\<close>)
qed

lemma acquireLock_relog:
  "map_sum (\<lambda>e. e) lock_key (fst (acquireLock cl ctx k timeout m env)) =
     map_sum (\<lambda>e. e) lock_key (fst (acquireLock cl ctx' k timeout m env))"
  "quiet (snd (acquireLock cl ctx k timeout m env)) = quiet (snd (acquireLock cl ctx' k timeout m env))"
  using acquire_loop_relog[of
      "\<lparr>lock_key = k, holder = holder_id env, lease = timeout,
        lock_logger = Some (call_logger cl ctx, k)\<rparr>"
      "\<lparr>lock_key = k, holder = holder_id env, lease = timeout,
        lock_logger = Some (call_logger cl ctx', k)\<rparr>"
      env "call_logger cl ctx" m 0 0 "call_logger cl ctx'"]
  by (simp_all add: acquireLock_def Let_def)

lemma cleanup_relog:
  "lock_key lk = lock_key lk' \<Longrightarrow>
   fst (cleanup rs lk renv p) = fst (cleanup rs lk' renv p)
   \<and> quiet (snd (cleanup rs lk renv p)) = quiet (snd (cleanup rs lk' renv p))"
  using releaseLock_relog[of lk lk' renv]
  by (simp add: cleanup_def split: renew_state.splits)

lemma compute_relog:
  assumes "lock_key lk = lock_key lk'"
  shows "fst (compute cl ctx key ttl timeout lk env) = fst (compute cl ctx' key ttl timeout lk' env)
   \<and> quiet (snd (compute cl ctx key ttl timeout lk env)) =
       quiet (snd (compute cl ctx' key ttl timeout lk' env))"
  using cleanup_relog[OF assms, of _ "release env"]
    renew_chain_relog[of "call_logger cl ctx" "key @ ''-lock''" "renewals env" No_renewal
      "call_logger cl ctx'"]
  by (simp add: compute_def Let_def set_value_def split: sum.splits option.splits)

lemma memoize_relog:
  "fst (memoize cl ctx key ttl timeout m env) = fst (memoize cl ctx' key ttl timeout m env)
   \<and> quiet (snd (memoize cl ctx key ttl timeout m env)) =
       quiet (snd (memoize cl ctx' key ttl timeout m env))"
proof -
  let ?A = "acquireLock cl ctx (key @ ''-lock'') timeout m (lockenv env)"
  let ?A' = "acquireLock cl ctx' (key @ ''-lock'') timeout m (lockenv env)"
  note g1 = get_relog[of cl ctx "key @ ''-value''" "probe1 env" ctx']
  note g2 = get_relog[of cl ctx "key @ ''-value''" "probe2 env" ctx']
  note a = acquireLock_relog[of cl ctx "key @ ''-lock''" timeout m "lockenv env" ctx']
  show ?thesis
  proof (cases "fst ?A")
    case (Inl e)
    with a(1) have "fst ?A' = Inl e" by (cases "fst ?A'") auto
    with Inl g1 a(2) show ?thesis
      by (simp add: memoize_def Let_def case_prod_beta split: promise.splits)
  next
    case (Inr l)
    with a(1) obtain l' where l': "fst ?A' = Inr l'" "lock_key l = lock_key l'"
      by (cases "fst ?A'") auto
    from compute_relog[OF l'(2), of cl ctx key ttl timeout env ctx']
      releaseLock_relog[OF l'(2), of "release env"] Inr l'(1) g1 g2 a(2)
    show ?thesis
      by (simp add: memoize_def Let_def case_prod_beta split: promise.splits)
  qed
qed

text \<open>
  Claim C9 as stated fails at the constructor: with no logger in the context it throws
  the assertion's error, where the same call with a logger builds the client.
\<close>

theorem constructor_needs_logger_counterexample:
  "fst (new_client bare_ctx None) = Inl no_logger_error
   \<and> fst (new_client ctx0 None) = Inr cl0"
  by (simp add: new_client_def bare_ctx_def ctx0_def cl0_def)

text \<open>
  Claim C9, as amended. The constructor requires a logger: with neither
  \<^verbatim>\<open>context.logger\<close> nor \<^verbatim>\<open>context.gb.logger\<close> it fails its assertion. On a client that
  was built, \<^verbatim>\<open>get\<close>, \<^verbatim>\<open>set\<close>, \<^verbatim>\<open>del\<close>, \<^verbatim>\<open>acquireLock\<close> and \<^verbatim>\<open>memoize\<close> called with a
  context that carries no logger log through the constructor's logger: they settle with
  the same result (for \<^verbatim>\<open>acquireLock\<close> the same error or a handle on the same key) and
  make the same calls, messages apart, as with any other context; \<^verbatim>\<open>releaseLock\<close> of a
  handle that carries no logger makes the same calls as with one.
\<close>

theorem logger_needed_at_construction_only:
  "fst (new_client bare_ctx opts) = Inl no_logger_error
   \<and> fst (get cl bare_ctx key resp) = fst (get cl ctx key resp)
   \<and> quiet (snd (get cl bare_ctx key resp)) = quiet (snd (get cl ctx key resp))
   \<and> fst (set_value cl bare_ctx key v t err) = fst (set_value cl ctx key v t err)
   \<and> quiet (snd (set_value cl bare_ctx key v t err)) = quiet (snd (set_value cl ctx key v t err))
   \<and> fst (del cl bare_ctx key err) = fst (del cl ctx key err)
   \<and> quiet (snd (del cl bare_ctx key err)) = quiet (snd (del cl ctx key err))
   \<and> map_sum (\<lambda>e. e) lock_key (fst (acquireLock cl bare_ctx key timeout maxWait lenv)) =
       map_sum (\<lambda>e. e) lock_key (fst (acquireLock cl ctx key timeout maxWait lenv))
   \<and> quiet (snd (acquireLock cl bare_ctx key timeout maxWait lenv)) =
       quiet (snd (acquireLock cl ctx key timeout maxWait lenv))
   \<and> fst (memoize cl bare_ctx key ttl timeout maxWait env) =
       fst (memoize cl ctx key ttl timeout maxWait env)
   \<and> quiet (snd (memoize cl bare_ctx key ttl timeout maxWait env)) =
       quiet (snd (memoize cl ctx key ttl timeout maxWait env))
   \<and> quiet (releaseLock (lk\<lparr>lock_logger := None\<rparr>) renv) = quiet (releaseLock lk renv)"
proof -
  have "fst (new_client bare_ctx opts) = Inl no_logger_error"
    by (simp add: new_client_def bare_ctx_def)
  moreover have "quiet (releaseLock (lk\<lparr>lock_logger := None\<rparr>) renv) = quiet (releaseLock lk renv)"
    by (rule releaseLock_relog) simp
  ultimately show ?thesis
    using get_relog[of cl bare_ctx key resp ctx] set_value_relog[of cl bare_ctx key v t err ctx]
      del_relog[of cl bare_ctx key err ctx]
      acquireLock_relog[of cl bare_ctx key timeout maxWait lenv ctx]
      memoize_relog[of cl bare_ctx key ttl timeout maxWait env ctx]
    by blast
qed

section \<open>The computation branch of memoize\<close>

lemma renew_chain_ok:
  "list_all (\<lambda>r. r = None) rs \<Longrightarrow>
   fst (renew_chain lg k rs st) = (if rs = [] then st else Renewed)"
  by (induction lg k rs st rule: renew_chain.induct) auto

lemma memoize_compute_path:
  assumes "fst (get cl ctx (key @ ''-value'') (probe1 env)) = Resolved v1" and "\<not> truthy v1"
    and "fst (acquireLock cl ctx (key @ ''-lock'') timeout maxWait (lockenv env)) = Inr lk"
    and "fst (get cl ctx (key @ ''-value'') (probe2 env)) = Resolved v2" and "\<not> truthy v2"
  shows "memoize cl ctx key ttl timeout maxWait env =
     with_prefix
       ([Log (call_logger cl ctx) Info ''etcd memoize'', Emit_start ''memoize'' key]
        @ snd (get cl ctx (key @ ''-value'') (probe1 env))
        @ snd (acquireLock cl ctx (key @ ''-lock'') timeout maxWait (lockenv env))
        @ snd (get cl ctx (key @ ''-value'') (probe2 env)))
       (compute cl ctx key ttl timeout lk env)"
  using assms by (simp add: memoize_def Let_def case_prod_beta with_prefix_def)

lemma not_written_before_compute:
  "key @ ''-value'' \<notin> written_keys
       ([Log lg Info ''etcd memoize'', Emit_start ''memoize'' key]
        @ snd (get cl ctx (key @ ''-value'') r1)
        @ snd (acquireLock cl ctx (key @ ''-lock'') timeout maxWait lenv)
        @ snd (get cl ctx (key @ ''-value'') r2))"
  using written_acquireLock[of cl ctx "key @ ''-lock''" timeout maxWait lenv]
  by auto

lemma cleanup_ok:
  "list_all (\<lambda>r. r = None) rs \<Longrightarrow>
   cleanup (fst (renew_chain lg k rs No_renewal)) lk renv pending =
     (pending, Clear_timeout # releaseLock lk renv)"
  by (simp add: renew_chain_ok cleanup_def)

lemma renew_chain_not_value:
  "key @ ''-value'' \<notin> written_keys (snd (renew_chain lg (key @ ''-lock'') rs st))"
  using written_renew_chain[of lg "key @ ''-lock''" rs st] by auto

lemma releaseLock_not_value:
  "lock_key lk = key @ ''-lock'' \<Longrightarrow> key @ ''-value'' \<notin> written_keys (releaseLock lk renv)"
  using written_releaseLock[of lk renv] by auto



section \<open>Cleanup of memoize\<close>

text \<open>
  Claim C6, at its failing input: the cache is empty, the lock is free, the computation
  outlasts half the lease, the timer's \<^verbatim>\<open>lock.renew()\<close> is rejected, and the computation
  then throws \<open>boom\<close>. \<^verbatim>\<open>memoize\<close> rejects with the renewal's error instead, and the trace
  ends at \<^verbatim>\<open>clearTimeout\<close>: the lock is never released.
\<close>

theorem failed_renewal_skips_release:
  "memoize cl0 ctx0 ''job'' 300 10 30 (job_env Map.empty (Inl boom) [Some lease_lost]) =
     (Rejected lease_lost,
      [Log winston Info ''etcd memoize'', Emit_start ''memoize'' ''job'',
       Log winston Info ''etcd get'', Emit_start ''get'' ''job-value'',
       Etcd_get ''job-value'' \<lparr>opt_maxRetries = 2, opt_ttl = None\<rparr>,
       Emit_finish ''get'' ''job-value'' (SNum 100), Log winston Info ''etcd got'',
       Log winston Info ''etcd acquire'', Emit_start ''acquireLock'' ''job-lock'',
       Lock_new ''job-lock'' ''holder-1'' 10, Lock_lock ''job-lock'',
       Log winston Info ''Acquired lock'',
       Emit_finish ''acquireLock'' ''job-lock'' (SStr ''acq''),
       Log winston Info ''etcd get'', Emit_start ''get'' ''job-value'',
       Etcd_get ''job-value'' \<lparr>opt_maxRetries = 2, opt_ttl = None\<rparr>,
       Emit_finish ''get'' ''job-value'' (SNum 100), Log winston Info ''etcd got'',
       Set_timeout 5000, Call_func,
       Log winston Info ''Renewing lock'', Lock_renew ''job-lock'',
       Emit_finish ''memoize'' ''job'' (SStr ''err''), Clear_timeout])
   \<and> lease_lost \<noteq> boom"
  by (simp add: memoize_def compute_def cleanup_def get_def acquireLock_def acquire_loop.simps
      job_env_def free_lock_def etcd_get_def key_not_found_def Let_def with_prefix_def
      call_logger_def cl0_def ctx0_def getOptions_def boom_def lease_lost_def)

lemma no_unlock_acquire_loop:
  "Lock_unlock k \<notin> set (snd (acquire_loop env lg lk maxWait a t))"
proof (induction env lg lk maxWait a t rule: acquire_loop.induct)
  case (1 env lg lk maxWait attempt elapsed)
  show ?case
    by (subst acquire_loop.simps) (use 1 in \<open>auto split: option.splits\<close>)
qed

lemma no_unlock_renew_chain: "Lock_unlock k \<notin> set (snd (renew_chain lg k' rs st))"
  by (induction lg k' rs st rule: renew_chain.induct) auto

lemma no_unlock_before_compute:
  "Lock_unlock k \<notin> set
       ([Log lg Info ''etcd memoize'', Emit_start ''memoize'' key]
        @ snd (get cl ctx vk r1)
        @ snd (acquireLock cl ctx lkk timeout maxWait lenv)
        @ snd (get cl ctx vk r2))"
  using no_unlock_acquire_loop
  by (simp add: get_def acquireLock_def Let_def)

text \<open>
  In general, once a renewal has failed, a \<^verbatim>\<open>memoize\<close> that has reached the
  computation rejects with the renewal's error whatever the computation and the write
  do, and never calls \<^verbatim>\<open>unlock\<close>.
\<close>

lemma failed_renewal_never_releases:
  assumes p1: "fst (get cl ctx (key @ ''-value'') (probe1 env)) = Resolved v1" "\<not> truthy v1"
    and lk: "fst (acquireLock cl ctx (key @ ''-lock'') timeout maxWait (lockenv env)) = Inr lk"
    and p2: "fst (get cl ctx (key @ ''-value'') (probe2 env)) = Resolved v2" "\<not> truthy v2"
    and r: "fst (renew_chain (call_logger cl ctx) (key @ ''-lock'') (renewals env) No_renewal)
              = Renew_failed e"
  shows "fst (memoize cl ctx key ttl timeout maxWait env) = Rejected e
     \<and> Lock_unlock k \<notin> set (snd (memoize cl ctx key ttl timeout maxWait env))"
proof -
  let ?lg = "call_logger cl ctx"
  let ?P = "[Log ?lg Info ''etcd memoize'', Emit_start ''memoize'' key]
        @ snd (get cl ctx (key @ ''-value'') (probe1 env))
        @ snd (acquireLock cl ctx (key @ ''-lock'') timeout maxWait (lockenv env))
        @ snd (get cl ctx (key @ ''-value'') (probe2 env))"
  let ?C = "compute cl ctx key ttl timeout lk env"
  have M: "memoize cl ctx key ttl timeout maxWait env = with_prefix ?P ?C"
    by (rule memoize_compute_path[OF p1 lk p2])
  have P: "Lock_unlock k \<notin> set ?P"
    by (rule no_unlock_before_compute)
  have c: "\<And>p. cleanup (Renew_failed e) lk (release env) p = (Rejected e, [Clear_timeout])"
    by (simp add: cleanup_def)
  have "fst ?C = Rejected e \<and> Lock_unlock k \<notin> set (snd ?C)"
    using no_unlock_renew_chain[of k ?lg "key @ ''-lock''" "renewals env" No_renewal]
    by (cases "func_result env"; cases "set_result env")
      (simp_all add: compute_def Let_def r c set_value_def)
  with P show ?thesis
    by (simp add: M)
qed

text \<open>
  When no renewal fails, a computation that throws leaves the cache alone: \<^verbatim>\<open>memoize\<close>
  rejects with what was thrown, writes nothing to \<^verbatim>\<open><key>-value\<close>, and ends with the
  \<^verbatim>\<open>err\<close> finish event, \<^verbatim>\<open>clearTimeout\<close> and the release of the lock.
\<close>

lemma memoize_func_throws_clean:
  assumes p1: "fst (get cl ctx (key @ ''-value'') (probe1 env)) = Resolved v1" "\<not> truthy v1"
    and lk: "fst (acquireLock cl ctx (key @ ''-lock'') timeout maxWait (lockenv env)) = Inr lk"
    and p2: "fst (get cl ctx (key @ ''-value'') (probe2 env)) = Resolved v2" "\<not> truthy v2"
    and f: "func_result env = Inl e"
    and r: "list_all (\<lambda>r. r = None) (renewals env)"
  shows "fst (memoize cl ctx key ttl timeout maxWait env) = Rejected e
     \<and> key @ ''-value'' \<notin> written_keys (snd (memoize cl ctx key ttl timeout maxWait env))
     \<and> (\<exists>pre. snd (memoize cl ctx key ttl timeout maxWait env) =
           pre @ Emit_finish ''memoize'' key (SStr ''err'') # Clear_timeout
               # releaseLock lk (release env))"
proof -
  let ?vk = "key @ ''-value''"
  let ?lg = "call_logger cl ctx"
  let ?P = "[Log ?lg Info ''etcd memoize'', Emit_start ''memoize'' key]
        @ snd (get cl ctx ?vk (probe1 env))
        @ snd (acquireLock cl ctx (key @ ''-lock'') timeout maxWait (lockenv env))
        @ snd (get cl ctx ?vk (probe2 env))"
  let ?chain = "renew_chain ?lg (key @ ''-lock'') (renewals env) No_renewal"
  let ?started = "Set_timeout (timeout * 1000 div 2) # Call_func # snd ?chain"
  let ?M = "memoize cl ctx key ttl timeout maxWait env"
  have M: "?M = with_prefix ?P (compute cl ctx key ttl timeout lk env)"
    by (rule memoize_compute_path[OF p1 lk p2])
  have P: "?vk \<notin> written_keys ?P"
    by (rule not_written_before_compute)
  have S: "?vk \<notin> written_keys ?started"
    using renew_chain_not_value[of key ?lg "renewals env" No_renewal] by simp
  have R: "?vk \<notin> written_keys (releaseLock lk (release env))"
    by (rule releaseLock_not_value) (rule acquireLock_key[OF lk])
  note C = cleanup_ok[OF r, of ?lg "key @ ''-lock''" lk "release env"]
  from f have "compute cl ctx key ttl timeout lk env =
      (Rejected e, ?started @ Emit_finish ''memoize'' key (SStr ''err'') # Clear_timeout
             # releaseLock lk (release env))"
    by (simp add: compute_def Let_def C with_prefix_def)
  then have sndM: "snd ?M = (?P @ ?started) @ Emit_finish ''memoize'' key (SStr ''err'')
             # Clear_timeout # releaseLock lk (release env)"
    and fstM: "fst ?M = Rejected e"
    by (simp_all add: M)
  have "?vk \<notin> written_keys (snd ?M)"
    unfolding sndM using P S R by simp
  with fstM sndM show ?thesis
    by blast
qed

section \<open>Round trip of the JSON text\<close>

text \<open>Decimal digits.\<close>

lemma digit_char_props:
  "d < 10 \<Longrightarrow> is_digit (digit_char d)"
  "d < 10 \<Longrightarrow> digit_val (digit_char d) = d"
  by (simp_all add: is_digit_def digit_char_def digit_val_def)

lemma char_of_48: "char_of (48::nat) = CHR ''0''"
proof -
  have "(of_char (CHR ''0'') :: nat) = 48" by simp
  then show ?thesis by (metis char_of_char)
qed

lemma digit_char_zero: "d < 10 \<Longrightarrow> (digit_char d = CHR ''0'') = (d = 0)"
proof -
  assume "d < 10"
  then have "digit_val (digit_char d) = d" by (rule digit_char_props)
  moreover have "digit_val (CHR ''0'') = 0" by (simp add: digit_val_def)
  moreover have "digit_char 0 = CHR ''0''" by (simp add: digit_char_def char_of_48)
  ultimately show ?thesis by metis
qed

lemma show_nat_digits: "x \<in> set (show_nat n) \<Longrightarrow> is_digit x"
proof (induction n arbitrary: x rule: show_nat.induct)
  case (1 n)
  then show ?case
    by (subst (asm) (2) show_nat.simps) (auto simp: digit_char_props split: if_splits)
qed

lemma show_nat_nonempty: "show_nat n \<noteq> []"
  by (subst show_nat.simps) simp

lemma digits_val_snoc: "digits_val (ds @ [c]) = 10 * digits_val ds + digit_val c"
  by (simp add: digits_val_def)

lemma digits_val_show_nat: "digits_val (show_nat n) = n"
proof (induction n rule: show_nat.induct)
  case (1 n)
  show ?case
  proof (cases "n < 10")
    case True
    then show ?thesis
      by (subst show_nat.simps) (simp add: digits_val_def digit_char_props)
  next
    case False
    with 1 show ?thesis
      by (subst show_nat.simps) (simp add: digits_val_snoc digit_char_props)
  qed
qed

lemma show_nat_leading: "0 < n \<Longrightarrow> hd (show_nat n) \<noteq> CHR ''0''"
proof (induction n rule: show_nat.induct)
  case (1 n)
  show ?case
  proof (cases "n < 10")
    case True
    with "1.prems" show ?thesis
      by (subst show_nat.simps) (simp add: digit_char_zero)
  next
    case False
    then have "0 < n div 10" by simp
    with 1 False have "hd (show_nat (n div 10)) \<noteq> CHR ''0''" by simp
    with False show ?thesis
      by (subst show_nat.simps) (simp add: show_nat_nonempty)
  qed
qed

lemma show_nat_zero: "show_nat 0 = ''0''"
  by (subst show_nat.simps) (simp add: digit_char_def char_of_48)

lemma show_nat_no_leading_zero:
  "\<not> (hd (show_nat n) = CHR ''0'' \<and> 1 < length (show_nat n))"
  by (cases "n = 0") (simp_all add: show_nat_zero show_nat_leading)

lemma delimiter_not_digit:
  "at_delimiter rest \<Longrightarrow> takeWhile is_digit rest = [] \<and> dropWhile is_digit rest = rest"
  by (cases rest) (auto simp: at_delimiter_def is_digit_def)

lemma span_show_nat:
  assumes "at_delimiter rest"
  shows "takeWhile is_digit (show_nat n @ rest) = show_nat n"
    and "dropWhile is_digit (show_nat n @ rest) = rest"
  using delimiter_not_digit[OF assms] show_nat_digits
  by (simp_all add: takeWhile_append2 dropWhile_append2)

lemma delimiter_not_fraction:
  "at_delimiter rest \<Longrightarrow>
   \<not> (rest \<noteq> [] \<and> (hd rest = CHR ''.'' \<or> hd rest = CHR ''e'' \<or> hd rest = CHR ''E''))"
  by (auto simp: at_delimiter_def)

lemma show_nat_not_minus: "hd (show_nat n) \<noteq> CHR ''-''"
proof -
  have "is_digit (hd (show_nat n))"
    using show_nat_digits[of "hd (show_nat n)" n] show_nat_nonempty[of n] by simp
  then show ?thesis by (auto simp: is_digit_def)
qed

lemma parse_number_show_int:
  assumes "at_delimiter rest"
  shows "parse_number (show_int i @ rest) = Some (JNum i, rest)"
proof (cases "i < 0")
  case True
  then show ?thesis
    using span_show_nat[OF assms, of "nat (- i)"] show_nat_nonempty[of "nat (- i)"]
      show_nat_no_leading_zero[of "nat (- i)"] delimiter_not_fraction[OF assms]
    by (simp add: parse_number_def show_int_def Let_def digits_val_show_nat)
next
  case False
  then show ?thesis
    using span_show_nat[OF assms, of "nat i"] show_nat_nonempty[of "nat i"]
      show_nat_no_leading_zero[of "nat i"] delimiter_not_fraction[OF assms]
      show_nat_not_minus[of "nat i"]
    by (simp add: parse_number_def show_int_def Let_def digits_val_show_nat)
qed

text \<open>String literals: every character is read back from its escape.\<close>

lemma hex_val_hex_char: "d < 16 \<Longrightarrow> hex_val (hex_char d) = Some d"
  by (auto simp: hex_val_def hex_char_def Let_def)

lemma hex4_control:
  "n < 32 \<Longrightarrow> hex4 (CHR ''0'') (CHR ''0'') (hex_char (n div 16)) (hex_char (n mod 16)) = Some n"
proof -
  assume n: "n < 32"
  have z: "hex_val (CHR ''0'') = Some 0" by (simp add: hex_val_def)
  from n have "n div 16 < 16" by simp
  then have a: "hex_val (hex_char (n div 16)) = Some (n div 16)" by (rule hex_val_hex_char)
  have b: "hex_val (hex_char (n mod 16)) = Some (n mod 16)" by (rule hex_val_hex_char) simp
  show ?thesis by (simp add: hex4_def z a b)
qed

lemma parse_string_escape:
  "parse_string (escape_char c @ t) = cons_result c (parse_string t)"
proof (cases "(of_char c :: nat) < 32 \<and> c \<notin> {CHR 0x08, CHR 0x09, CHR 0x0A, CHR 0x0C, CHR 0x0D}")
  case True
  then have n: "(of_char c :: nat) < 32"
    by simp
  have ne: "c \<noteq> CHR 0x22" "c \<noteq> CHR 0x5C"
  proof -
    show "c \<noteq> CHR 0x22"
    proof
      assume "c = CHR 0x22"
      then have "(of_char c :: nat) = 34" by simp
      with n show False by simp
    qed
    show "c \<noteq> CHR 0x5C"
    proof
      assume "c = CHR 0x5C"
      then have "(of_char c :: nat) = 92" by simp
      with n show False by simp
    qed
  qed
  from True n ne show ?thesis
    by (simp add: escape_char_def hex4_control)
next
  case False
  then show ?thesis
    by (auto simp: escape_char_def unescape_def)
qed

lemma parse_string_show:
  "parse_string (concat (map escape_char s) @ CHR 0x22 # rest) = Some (s, rest)"
  by (induction s) (simp_all add: parse_string_escape cons_result_def del: parse_string.simps, simp)


text \<open>Values: the parser reads a printed value back, given fuel above the value's size and
  a delimiter after it. Elements and members are handled by induction on the list.\<close>

lemma skip_ws_token: "\<not> is_ws c \<Longrightarrow> skip_ws (c # r) = c # r"
  by (simp add: skip_ws_def)

lemma show_int_head:
  "\<exists>c r. show_int i = c # r \<and> (c = CHR ''-'' \<or> is_digit c)"
proof -
  obtain d r where dr: "show_nat (nat \<bar>i\<bar>) = d # r"
    using show_nat_nonempty[of "nat \<bar>i\<bar>"] by (cases "show_nat (nat \<bar>i\<bar>)") auto
  then have "is_digit d"
    using show_nat_digits[of d "nat \<bar>i\<bar>"] by simp
  with dr show ?thesis
    by (cases "i < 0") (auto simp: show_int_def abs_if)
qed

lemma parse_value_number:
  assumes "at_delimiter rest"
  shows "parse_value (Suc f) (show_int i @ rest) = Some (JNum i, rest)"
proof -
  obtain c r where cr: "show_int i = c # r" and c: "c = CHR ''-'' \<or> is_digit c"
    using show_int_head by blast
  from c have "\<not> is_ws c" "c \<noteq> CHR ''n''" "c \<noteq> CHR ''t''" "c \<noteq> CHR ''f''" "c \<noteq> CHR 0x22"
    "c \<noteq> CHR ''[''" "c \<noteq> CHR ''{''"
    by (auto simp: is_ws_def is_digit_def)
  then have "parse_value (Suc f) (c # r @ rest) = parse_number (c # r @ rest)"
    by (simp add: skip_ws_token)
  with parse_number_show_int[OF assms, of i] cr show ?thesis
    by simp
qed

lemma stringify_head:
  "\<exists>c r. stringify v = c # r \<and> \<not> is_ws c \<and> c \<noteq> CHR '']'' \<and> c \<noteq> CHR ''}''"
proof (cases v)
  case (JNum i)
  obtain c r where "show_int i = c # r" "c = CHR ''-'' \<or> is_digit c"
    using show_int_head by blast
  with JNum show ?thesis
    by (auto simp: is_ws_def is_digit_def)
qed (auto simp: is_ws_def show_string_def)

lemma at_delimiter_simps [simp]:
  "at_delimiter []" "at_delimiter (CHR '','' # r)" "at_delimiter (CHR '']'' # r)"
  "at_delimiter (CHR ''}'' # r)"
  by (simp_all add: at_delimiter_def)

lemma parse_elems_stringify:
  assumes IH: "\<And>x f rest. x \<in> set xs \<Longrightarrow> size x < f \<Longrightarrow> at_delimiter rest
      \<Longrightarrow> parse_value f (stringify x @ rest) = Some (x, rest)"
  shows "xs \<noteq> [] \<Longrightarrow> size_list size xs < f
      \<Longrightarrow> parse_elems f (stringify_elems xs @ CHR '']'' # rest) = Some (xs, rest)"
  using IH
proof (induction xs arbitrary: f)
  case Nil
  then show ?case by simp
next
  case (Cons x xs)
  from Cons.prems(2) obtain f' where f: "f = Suc f'" and sx: "size x < f'"
    and sxs: "size_list size xs < f'"
    by (cases f) auto
  show ?case
  proof (cases xs)
    case Nil
    have "parse_value f' (stringify x @ CHR '']'' # rest) = Some (x, CHR '']'' # rest)"
      by (rule Cons.prems(3)) (use sx in simp_all)
    with Nil f show ?thesis
      by (simp add: skip_ws_token is_ws_def)
  next
    case (Cons y ys)
    let ?tail = "stringify_elems (y # ys) @ CHR '']'' # rest"
    have "parse_value f' (stringify x @ CHR '','' # ?tail) = Some (x, CHR '','' # ?tail)"
      by (rule Cons.prems(3)) (use sx in simp_all)
    moreover have "parse_elems f' ?tail = Some (y # ys, rest)"
      using Cons.IH[of f'] Cons.prems(3) sxs Cons by simp
    ultimately show ?thesis
      using Cons f by (simp add: skip_ws_token is_ws_def)
  qed
qed

lemma parse_members_stringify:
  assumes IH: "\<And>k x f rest. (k, x) \<in> set kvs \<Longrightarrow> size x < f \<Longrightarrow> at_delimiter rest
      \<Longrightarrow> parse_value f (stringify x @ rest) = Some (x, rest)"
  shows "kvs \<noteq> [] \<Longrightarrow> size_list (size_prod (\<lambda>x. 0) size) kvs < f
      \<Longrightarrow> parse_members f (stringify_members kvs @ CHR ''}'' # rest) = Some (kvs, rest)"
  using IH
proof (induction kvs arbitrary: f)
  case Nil
  then show ?case by simp
next
  case (Cons kv kvs)
  obtain k x where kv: "kv = (k, x)" by (cases kv)
  from Cons.prems(2) kv obtain f' where f: "f = Suc f'" and sx: "size x < f'"
    and sxs: "size_list (size_prod (\<lambda>x. 0) size) kvs < f'"
    by (cases f) auto
  have key: "\<And>t. parse_string (concat (map escape_char k) @ CHR 0x22 # t) = Some (k, t)"
    by (rule parse_string_show)
  show ?case
  proof (cases kvs)
    case Nil
    have "parse_value f' (stringify x @ CHR ''}'' # rest) = Some (x, CHR ''}'' # rest)"
      by (rule Cons.prems(3)[of k]) (use sx kv in simp_all)
    with Nil f kv key show ?thesis
      by (simp add: skip_ws_token is_ws_def show_string_def del: parse_string.simps)
  next
    case (Cons m ms)
    let ?tail = "stringify_members (m # ms) @ CHR ''}'' # rest"
    have "parse_value f' (stringify x @ CHR '','' # ?tail) = Some (x, CHR '','' # ?tail)"
      by (rule Cons.prems(3)[of k]) (use sx kv in simp_all)
    moreover have "parse_members f' ?tail = Some (m # ms, rest)"
    proof -
      have "\<And>k x g t. (k, x) \<in> set kvs \<Longrightarrow> size x < g \<Longrightarrow> at_delimiter t
          \<Longrightarrow> parse_value g (stringify x @ t) = Some (x, t)"
        using Cons.prems(3) by (metis list.set_intros(2))
      from Cons.IH[OF _ _ this, of f'] sxs Cons show ?thesis by simp
    qed
    ultimately show ?thesis
      using Cons f kv key
      by (simp add: skip_ws_token is_ws_def show_string_def del: parse_string.simps)
  qed
qed

lemma parse_value_stringify:
  "size v < f \<Longrightarrow> at_delimiter rest \<Longrightarrow> parse_value f (stringify v @ rest) = Some (v, rest)"
proof (induction v arbitrary: f rest)
  case JNull
  then show ?case by (cases f) (simp_all add: skip_ws_token is_ws_def)
next
  case (JBool b)
  then show ?case by (cases f) (simp_all add: skip_ws_token is_ws_def)
next
  case (JNum i)
  then show ?case by (cases f) (simp_all add: parse_value_number del: parse_value.simps)
next
  case (JStr s)
  then show ?case
    by (cases f)
      (simp_all add: skip_ws_token is_ws_def show_string_def parse_string_show
        del: parse_string.simps)
next
  case (JArr xs)
  from JArr.prems(1) obtain f' where f: "f = Suc f'" and sxs: "size_list size xs < f'"
    by (cases f) auto
  show ?case
  proof (cases xs)
    case Nil
    with f show ?thesis by (simp add: skip_ws_token is_ws_def)
  next
    case (Cons y ys)
    obtain c r where cr: "stringify y = c # r" and c: "\<not> is_ws c" "c \<noteq> CHR '']''"
      using stringify_head by blast
    have hd: "\<exists>r'. stringify_elems xs @ CHR '']'' # rest = c # r'"
      using Cons cr by (cases ys) simp_all
    then obtain r' where r': "stringify_elems xs @ CHR '']'' # rest = c # r'" ..
    have "parse_elems f' (stringify_elems xs @ CHR '']'' # rest) = Some (xs, rest)"
      by (rule parse_elems_stringify) (use JArr.IH sxs Cons in simp_all)
    with r' have "parse_elems f' (c # r') = Some (xs, rest)" by simp
    with f c r' show ?thesis
      by (simp add: skip_ws_token is_ws_def)
  qed
next
  case (JObj kvs)
  from JObj.prems(1) obtain f' where f: "f = Suc f'"
    and sxs: "size_list (size_prod (\<lambda>x. 0) size) kvs < f'"
    by (cases f) auto
  show ?case
  proof (cases kvs)
    case Nil
    with f show ?thesis by (simp add: skip_ws_token is_ws_def)
  next
    case (Cons m ms)
    have hd: "\<exists>r'. stringify_members kvs @ CHR ''}'' # rest = CHR 0x22 # r'"
      using Cons by (cases m; cases ms) (simp_all add: show_string_def)
    then obtain r' where r': "stringify_members kvs @ CHR ''}'' # rest = CHR 0x22 # r'" ..
    have "parse_members f' (stringify_members kvs @ CHR ''}'' # rest) = Some (kvs, rest)"
    proof (rule parse_members_stringify)
      fix k x g t
      assume "(k, x) \<in> set kvs" "size x < g" "at_delimiter t"
      then show "parse_value g (stringify x @ t) = Some (x, t)"
        using JObj.IH[of "(k, x)" x g t] by simp
    qed (use sxs Cons in simp_all)
    with r' have "parse_members f' (CHR 0x22 # r') = Some (kvs, rest)" by simp
    with f r' show ?thesis
      by (simp add: skip_ws_token is_ws_def)
  qed
qed

lemma size_le_stringify:
  "size v \<le> 2 * length (stringify v)"
  "size_list size xs \<le> 2 * length (stringify_elems xs) + 1"
  "size_list (size_prod (\<lambda>x. 0) size) kvs \<le> 2 * length (stringify_members kvs) + 1"
  by (induction v and xs and kvs rule: stringify_stringify_elems_stringify_members.induct)
    (simp_all add: show_string_def)

text \<open>\<^verbatim>\<open>JSON.parse(JSON.stringify(v))\<close> is \<open>v\<close>.\<close>

lemma parse_stringify: "parse (stringify v) = Some v"
proof -
  have "size v < 2 * length (stringify v) + 2"
    using size_le_stringify(1)[of v] by simp
  then have "parse_value (2 * length (stringify v) + 2) (stringify v @ []) = Some (v, [])"
    by (rule parse_value_stringify) simp
  then show ?thesis
    by (simp add: parse_def skip_ws_def)
qed

section \<open>Round trip through the store\<close>


section \<open>Reuse of the cache\<close>

lemma or_empty_truthy: "truthy (Some (or_empty v))"
  by (cases v) (auto simp: or_empty_def)

lemma store_after_append: "store_after (xs @ ys) st = store_after ys (store_after xs st)"
  by (induction xs arbitrary: st) simp_all

lemma store_after_untouched: "k \<notin> written_keys tr \<Longrightarrow> store_after tr st k = st k"
  by (induction tr arbitrary: st) (auto split: event.splits)

lemma store_after_write:
  "k \<notin> written_keys post \<Longrightarrow> store_after (pre @ Etcd_set k text opts # post) st k = Some text"
  by (simp add: store_after_append store_after_untouched)

lemma compute_populated:
  assumes res: "fst (compute cl ctx key ttl timeout lk env) = Resolved r"
    and wr: "key @ ''-value'' \<in> written_keys (snd (compute cl ctx key ttl timeout lk env))"
    and lk: "lock_key lk = key @ ''-lock''"
  shows "\<exists>j pre post opts. r = Some j \<and> truthy (Some j)
     \<and> snd (compute cl ctx key ttl timeout lk env)
         = pre @ Etcd_set (key @ ''-value'') (stringify j) opts # post
     \<and> key @ ''-value'' \<notin> written_keys post"
proof -
  let ?vk = "key @ ''-value''"
  let ?lg = "call_logger cl ctx"
  let ?chain = "renew_chain ?lg (key @ ''-lock'') (renewals env) No_renewal"
  let ?started = "Set_timeout (timeout * 1000 div 2) # Call_func # snd ?chain"
  let ?C = "compute cl ctx key ttl timeout lk env"
  have S: "?vk \<notin> written_keys ?started"
    using renew_chain_not_value[of key ?lg "renewals env" No_renewal] by simp
  have R: "?vk \<notin> written_keys (releaseLock lk (release env))"
    by (rule releaseLock_not_value) (rule lk)
  have nf: "\<And>p. fst (cleanup (fst ?chain) lk (release env) p) = Resolved r \<Longrightarrow>
      cleanup (fst ?chain) lk (release env) p = (p, Clear_timeout # releaseLock lk (release env))"
    by (auto simp: cleanup_def split: renew_state.splits)
  obtain v where f: "func_result env = Inr v"
    using res by (cases "func_result env") (auto simp: compute_def Let_def cleanup_def
        split: renew_state.splits)
  have t: "ttl \<noteq> 0"
  proof
    assume "ttl = 0"
    with f res have "snd ?C = ?started @ Emit_finish ''memoize'' key (SStr ''val-eval'')
        # Clear_timeout # releaseLock lk (release env)"
      using nf[of "Resolved (Some (or_empty v))"] by (simp add: compute_def Let_def)
    with wr S R show False by simp
  qed
  have s: "set_result env = None"
    using res f t by (cases "set_result env") (auto simp: compute_def Let_def cleanup_def
        set_value_def split: renew_state.splits)
  from f t s res have c: "cleanup (fst ?chain) lk (release env) (Resolved (Some (or_empty v)))
      = (Resolved (Some (or_empty v)), Clear_timeout # releaseLock lk (release env))"
    using nf[of "Resolved (Some (or_empty v))"] by (simp add: compute_def Let_def set_value_def)
  let ?pre = "?started @ [Log ?lg Info ''etcd set'', Emit_start ''set'' ?vk]"
  let ?post = "[Emit_finish ''set'' ?vk (SNum 0), Log ?lg Info ''etcd was set'',
      Emit_finish ''memoize'' key (SStr ''val-eval''), Clear_timeout]
      @ releaseLock lk (release env)"
  from f t s c have "?C = (Resolved (Some (or_empty v)),
      ?pre @ Etcd_set ?vk (stringify (or_empty v)) (getOptions cl (set_options (Some ttl))) # ?post)"
    by (simp add: compute_def Let_def set_value_def with_prefix_def)
  moreover have "?vk \<notin> written_keys ?post"
    using R by simp
  ultimately show ?thesis
    using res or_empty_truthy[of v] by (intro exI[of _ "or_empty v"] exI[of _ ?pre] exI[of _ ?post]
        exI[of _ "getOptions cl (set_options (Some ttl))"]) simp
qed

text \<open>A \<^verbatim>\<open>memoize\<close> that resolves after writing to \<^verbatim>\<open><key>-value\<close> resolves with a truthy
  document and leaves its JSON text in the store.\<close>

lemma memoize_populated:
  assumes res: "fst (memoize cl ctx key ttl timeout maxWait env) = Resolved r"
    and wr: "key @ ''-value'' \<in> written_keys (snd (memoize cl ctx key ttl timeout maxWait env))"
  shows "\<exists>j. r = Some j \<and> truthy (Some j)
     \<and> store_after (snd (memoize cl ctx key ttl timeout maxWait env)) st (key @ ''-value'')
         = Some (stringify j)"
proof -
  let ?vk = "key @ ''-value''"
  let ?lkk = "key @ ''-lock''"
  let ?lg = "call_logger cl ctx"
  let ?G1 = "get cl ctx ?vk (probe1 env)"
  let ?A = "acquireLock cl ctx ?lkk timeout maxWait (lockenv env)"
  let ?G2 = "get cl ctx ?vk (probe2 env)"
  let ?M = "memoize cl ctx key ttl timeout maxWait env"
  let ?P = "[Log ?lg Info ''etcd memoize'', Emit_start ''memoize'' key] @ snd ?G1 @ snd ?A @ snd ?G2"
  have A: "?vk \<notin> written_keys (snd ?A)"
    using written_acquireLock[of cl ctx ?lkk timeout maxWait "lockenv env"] by auto
  have R: "\<And>l. fst ?A = Inr l \<Longrightarrow> ?vk \<notin> written_keys (releaseLock l (release env))"
    using releaseLock_not_value acquireLock_key by blast
  obtain v1 where g1: "fst ?G1 = Resolved v1" and t1: "\<not> truthy v1"
    using res wr by (cases "fst ?G1") (auto simp: memoize_def Let_def case_prod_beta split: if_splits)
  obtain lk where a: "fst ?A = Inr lk"
    using res g1 t1 by (cases "fst ?A") (auto simp: memoize_def Let_def case_prod_beta)
  obtain v2 where g2: "fst ?G2 = Resolved v2" and t2: "\<not> truthy v2"
    using res wr g1 t1 a A R[OF a]
    by (cases "fst ?G2") (auto simp: memoize_def Let_def case_prod_beta split: if_splits)
  have M: "?M = with_prefix ?P (compute cl ctx key ttl timeout lk env)"
    by (rule memoize_compute_path[OF g1 t1 a g2 t2])
  have P: "?vk \<notin> written_keys ?P"
    by (rule not_written_before_compute)
  from res wr M P have "fst (compute cl ctx key ttl timeout lk env) = Resolved r"
    and "?vk \<in> written_keys (snd (compute cl ctx key ttl timeout lk env))"
    by simp_all
  from compute_populated[OF this acquireLock_key[OF a]] obtain j pre post opts where
    j: "r = Some j" "truthy (Some j)"
    and tr: "snd (compute cl ctx key ttl timeout lk env) = pre @ Etcd_set ?vk (stringify j) opts # post"
    and post: "?vk \<notin> written_keys post"
    by blast
  from tr have sm: "snd ?M = (?P @ pre) @ Etcd_set ?vk (stringify j) opts # post"
    by (simp add: M)
  have "store_after (snd ?M) st ?vk = Some (stringify j)"
    unfolding sm by (rule store_after_write[OF post])
  with j show ?thesis by blast
qed

lemma memoize_prelock:
  assumes "fst (get cl ctx (key @ ''-value'') (probe1 env)) = Resolved v" and "truthy v"
  shows "memoize cl ctx key ttl timeout maxWait env =
     (Resolved v,
      [Log (call_logger cl ctx) Info ''etcd memoize'', Emit_start ''memoize'' key,
       Log (call_logger cl ctx) Info ''etcd get'', Emit_start ''get'' (key @ ''-value''),
       Etcd_get (key @ ''-value'') \<lparr>opt_maxRetries = maxRetries cl, opt_ttl = None\<rparr>,
       Emit_finish ''get'' (key @ ''-value'') (statusCode (fst (probe1 env))),
       Log (call_logger cl ctx) Info ''etcd got'',
       Emit_finish ''memoize'' key (SStr ''val-prelock'')])"
proof -
  have "snd (get cl ctx (key @ ''-value'') (probe1 env)) =
      [Log (call_logger cl ctx) Info ''etcd get'', Emit_start ''get'' (key @ ''-value''),
       Etcd_get (key @ ''-value'') \<lparr>opt_maxRetries = maxRetries cl, opt_ttl = None\<rparr>,
       Emit_finish ''get'' (key @ ''-value'') (statusCode (fst (probe1 env))),
       Log (call_logger cl ctx) Info ''etcd got'']"
    by (simp add: get_def Let_def getOptions_def)
  with assms show ?thesis
    by (simp add: memoize_def Let_def case_prod_beta with_prefix_def)
qed

text \<open>
  Claim C4, as amended. If the probe of \<^verbatim>\<open><key>-value\<close> before the lock yields a truthy
  value (any document but \<^verbatim>\<open>null\<close>, \<^verbatim>\<open>false\<close>, \<^verbatim>\<open>0\<close> and the empty string), \<^verbatim>\<open>memoize\<close>
  resolves with that value and its trace is the probe between the start and the
  \<^verbatim>\<open>val-prelock\<close> finish event: no lock is taken and \<^verbatim>\<open>func\<close> is not called. And when one
  \<^verbatim>\<open>memoize\<close> of a key has resolved with \<open>r\<close> after writing to \<^verbatim>\<open><key>-value\<close>, a later
  \<^verbatim>\<open>memoize\<close> of the same key that probes the store so written resolves with \<open>r\<close>, calls no
  computation and writes nothing, whatever its other arguments are.
\<close>

theorem memoize_reuses_truthy_cache:
  "(fst (get cl ctx (key @ ''-value'') (probe1 env)) = Resolved v \<and> truthy v \<longrightarrow>
      memoize cl ctx key ttl timeout maxWait env =
        (Resolved v,
         [Log (call_logger cl ctx) Info ''etcd memoize'', Emit_start ''memoize'' key,
          Log (call_logger cl ctx) Info ''etcd get'', Emit_start ''get'' (key @ ''-value''),
          Etcd_get (key @ ''-value'') \<lparr>opt_maxRetries = maxRetries cl, opt_ttl = None\<rparr>,
          Emit_finish ''get'' (key @ ''-value'') (statusCode (fst (probe1 env))),
          Log (call_logger cl ctx) Info ''etcd got'',
          Emit_finish ''memoize'' key (SStr ''val-prelock'')]))
   \<and> (fst (memoize cl ctx key ttl timeout maxWait env) = Resolved r
      \<and> key @ ''-value'' \<in> written_keys (snd (memoize cl ctx key ttl timeout maxWait env))
      \<and> probe1 env2 =
          etcd_get (store_after (snd (memoize cl ctx key ttl timeout maxWait env)) st)
            (key @ ''-value'') \<longrightarrow>
      fst (memoize cl2 ctx2 key ttl2 timeout2 maxWait2 env2) = Resolved r
      \<and> Call_func \<notin> set (snd (memoize cl2 ctx2 key ttl2 timeout2 maxWait2 env2))
      \<and> written_keys (snd (memoize cl2 ctx2 key ttl2 timeout2 maxWait2 env2)) = {})"
proof (intro conjI impI)
  assume "fst (get cl ctx (key @ ''-value'') (probe1 env)) = Resolved v \<and> truthy v"
  then show "memoize cl ctx key ttl timeout maxWait env =
        (Resolved v,
         [Log (call_logger cl ctx) Info ''etcd memoize'', Emit_start ''memoize'' key,
          Log (call_logger cl ctx) Info ''etcd get'', Emit_start ''get'' (key @ ''-value''),
          Etcd_get (key @ ''-value'') \<lparr>opt_maxRetries = maxRetries cl, opt_ttl = None\<rparr>,
          Emit_finish ''get'' (key @ ''-value'') (statusCode (fst (probe1 env))),
          Log (call_logger cl ctx) Info ''etcd got'',
          Emit_finish ''memoize'' key (SStr ''val-prelock'')])"
    using memoize_prelock by blast
next
  let ?M = "memoize cl ctx key ttl timeout maxWait env"
  let ?M2 = "memoize cl2 ctx2 key ttl2 timeout2 maxWait2 env2"
  assume h: "fst ?M = Resolved r \<and> key @ ''-value'' \<in> written_keys (snd ?M)
      \<and> probe1 env2 = etcd_get (store_after (snd ?M) st) (key @ ''-value'')"
  from memoize_populated[of cl ctx key ttl timeout maxWait env r st] h obtain j where
    j: "r = Some j" "truthy (Some j)"
    and st: "store_after (snd ?M) st (key @ ''-value'') = Some (stringify j)"
    by blast
  from st h have "fst (get cl2 ctx2 (key @ ''-value'') (probe1 env2)) = Resolved (Some j)"
    by (simp add: get_def etcd_get_def Let_def parse_stringify)
  from memoize_prelock[OF this j(2), of ttl2 timeout2 maxWait2] j(1)
  show "fst ?M2 = Resolved r" "Call_func \<notin> set (snd ?M2)" "written_keys (snd ?M2) = {}"
    by simp_all
qed

lemmas scenario_defs =
  memoize_def compute_def cleanup_def get_def set_value_def acquireLock_def acquire_loop.simps
  releaseLock_def job_env_def free_lock_def clean_release_def etcd_get_def key_not_found_def
  Let_def with_prefix_def call_logger_def cl0_def ctx0_def getOptions_def set_options_def
  or_empty_def

lemma parse_zero: "parse ''0'' = Some (JNum 0)"
  using parse_stringify[of "JNum 0"] by (simp add: show_int_def show_nat_zero)

text \<open>
  Claim C4 as stated fails on a stored value that is falsy: with the document \<^verbatim>\<open>0\<close> at
  \<^verbatim>\<open>job-value\<close> the probe finds the value 0, yet \<^verbatim>\<open>memoize\<close> takes the lock, calls the
  computation and resolves with its result.
\<close>

theorem falsy_cached_value_counterexample:
  "fst (get cl0 ctx0 ''job-value'' (etcd_get [''job-value'' \<mapsto> ''0''] ''job-value''))
     = Resolved (Some (JNum 0))
   \<and> fst (memoize cl0 ctx0 ''job'' 300 10 30
          (job_env [''job-value'' \<mapsto> ''0''] (Inr (Some (JStr ''fresh''))) []))
     = Resolved (Some (JStr ''fresh''))
   \<and> Lock_lock ''job-lock'' \<in> set (snd (memoize cl0 ctx0 ''job'' 300 10 30
          (job_env [''job-value'' \<mapsto> ''0''] (Inr (Some (JStr ''fresh''))) [])))
   \<and> Call_func \<in> set (snd (memoize cl0 ctx0 ''job'' 300 10 30
          (job_env [''job-value'' \<mapsto> ''0''] (Inr (Some (JStr ''fresh''))) [])))"
  by (simp add: scenario_defs parse_zero)

text \<open>The hypotheses of C4 hold for a cached string, and for a second call after a first
  one on an empty store.\<close>

theorem memoize_reuses_truthy_cache_witness:
  "fst (memoize cl0 ctx0 ''job'' 300 10 30
         (job_env [''job-value'' \<mapsto> stringify (JStr ''v1'')] (Inr (Some (JStr ''v2''))) []))
     = Resolved (Some (JStr ''v1''))
   \<and> fst (memoize cl0 ctx0 ''job'' 300 10 30
         (job_env
            (store_after
               (snd (memoize cl0 ctx0 ''job'' 300 10 30
                      (job_env Map.empty (Inr (Some (JStr ''v1''))) [])))
               Map.empty)
            (Inr (Some (JStr ''v2''))) []))
     = Resolved (Some (JStr ''v1''))
   \<and> Call_func \<notin> set (snd (memoize cl0 ctx0 ''job'' 300 10 30
         (job_env
            (store_after
               (snd (memoize cl0 ctx0 ''job'' 300 10 30
                      (job_env Map.empty (Inr (Some (JStr ''v1''))) [])))
               Map.empty)
            (Inr (Some (JStr ''v2''))) [])))"
proof -
  let ?e1 = "job_env Map.empty (Inr (Some (JStr ''v1''))) []"
  let ?M1 = "memoize cl0 ctx0 ''job'' 300 10 30 ?e1"
  let ?e2 = "job_env (store_after (snd ?M1) Map.empty) (Inr (Some (JStr ''v2''))) []"
  let ?e3 = "job_env [''job-value'' \<mapsto> stringify (JStr ''v1'')] (Inr (Some (JStr ''v2''))) []"
  have a: "fst (get cl0 ctx0 (''job'' @ ''-value'') (probe1 ?e3)) = Resolved (Some (JStr ''v1''))
      \<and> truthy (Some (JStr ''v1''))"
    using parse_stringify[of "JStr ''v1''"]
    by (simp add: job_env_def get_def etcd_get_def Let_def)
  have b1: "fst ?M1 = Resolved (Some (JStr ''v1''))"
    by (simp add: scenario_defs)
  have b2: "''job'' @ ''-value'' \<in> written_keys (snd ?M1)"
    by (simp add: scenario_defs)
  have b3: "probe1 ?e2 = etcd_get (store_after (snd ?M1) Map.empty) (''job'' @ ''-value'')"
    by (simp add: job_env_def)
  note t = memoize_reuses_truthy_cache
  from t[where cl = cl0 and ctx = ctx0 and key = "''job''" and env = ?e3 and ttl = 300
      and timeout = 10 and maxWait = 30 and v = "Some (JStr ''v1'')", THEN conjunct1, THEN mp, OF a]
  have "fst (memoize cl0 ctx0 ''job'' 300 10 30 ?e3) = Resolved (Some (JStr ''v1''))"
    by simp
  moreover
  from t[where cl = cl0 and ctx = ctx0 and key = "''job''" and env = ?e1 and ttl = 300
      and timeout = 10 and maxWait = 30 and r = "Some (JStr ''v1'')" and st = Map.empty
      and ?env2.0 = ?e2 and ?cl2.0 = cl0 and ?ctx2.0 = ctx0 and ?ttl2.0 = 300 and ?timeout2.0 = 10
      and ?maxWait2.0 = 30, THEN conjunct2, THEN mp, OF conjI[OF b1 conjI[OF b2 b3]]]
  have "fst (memoize cl0 ctx0 ''job'' 300 10 30 ?e2) = Resolved (Some (JStr ''v1''))
      \<and> Call_func \<notin> set (snd (memoize cl0 ctx0 ''job'' 300 10 30 ?e2))"
    by simp
  ultimately show ?thesis
    by simp
qed

end
